theory Spec2Isabelle
  imports Complex_Main "HOL-Library.AList"
begin

text \<open>
  A shallow embedding of the path-finding library (\<open>types.ts\<close>,
  \<open>graph-validator.ts\<close>, \<open>graph-builder.ts\<close>, \<open>priority-queue.ts\<close>,
  \<open>path-finder.ts\<close>, \<open>graph-analyzer.ts\<close>): first the functions, each translated
  from its source, then the invariants of the two loops that search the graph, then
  what is proved of the validator, the builder, the analyzer and the path engine.
  A \<open>Result\<close> is a sum type with the error on the left.
\<close>

section \<open>JavaScript values\<close>

text \<open>
  A JavaScript number is a finite value, one of the two infinities, or NaN. Finite values
  are taken as exact reals: rounding and overflow of IEEE-754 doubles are outside this
  model, and the two zeros are one value (they are equal under \<open>===\<close> and as keys of
  a \<open>Map\<close>).
\<close>

datatype jsnum = Finite real | PosInfinity | NegInfinity | NaN

text \<open>\<open>type Node = string | number\<close> (types.ts).\<close>

datatype Node = Str string | Num jsnum

text \<open>
  What an edge endpoint or weight can be at run time, whatever the declared type says:
  a string or number, \<open>null\<close>, \<open>undefined\<close>, an object or an array.
\<close>

datatype jsval = Val Node | JNull | JUndefined | JObject | JArray

fun typeof :: "jsval \<Rightarrow> string" where
  "typeof (Val (Str s)) = ''string''"
| "typeof (Val (Num n)) = ''number''"
| "typeof JNull = ''object''"
| "typeof JUndefined = ''undefined''"
| "typeof JObject = ''object''"
| "typeof JArray = ''object''"

fun isNaN :: "jsnum \<Rightarrow> bool" where
  "isNaN NaN = True"
| "isNaN _ = False"

fun isFinite :: "jsnum \<Rightarrow> bool" where
  "isFinite (Finite r) = True"
| "isFinite _ = False"

text \<open>The operators \<open>+\<close>, \<open>-\<close> and \<open><\<close> on numbers.\<close>

fun js_add :: "jsnum \<Rightarrow> jsnum \<Rightarrow> jsnum" where
  "js_add NaN _ = NaN"
| "js_add _ NaN = NaN"
| "js_add (Finite a) (Finite b) = Finite (a + b)"
| "js_add PosInfinity NegInfinity = NaN"
| "js_add NegInfinity PosInfinity = NaN"
| "js_add PosInfinity _ = PosInfinity"
| "js_add NegInfinity _ = NegInfinity"
| "js_add (Finite a) b = b"

fun js_neg :: "jsnum \<Rightarrow> jsnum" where
  "js_neg (Finite a) = Finite (- a)"
| "js_neg PosInfinity = NegInfinity"
| "js_neg NegInfinity = PosInfinity"
| "js_neg NaN = NaN"

definition js_sub :: "jsnum \<Rightarrow> jsnum \<Rightarrow> jsnum" where
  "js_sub a b = js_add a (js_neg b)"

fun js_less :: "jsnum \<Rightarrow> jsnum \<Rightarrow> bool" where
  "js_less NaN _ = False"
| "js_less _ NaN = False"
| "js_less (Finite a) (Finite b) = (a < b)"
| "js_less NegInfinity NegInfinity = False"
| "js_less NegInfinity _ = True"
| "js_less PosInfinity _ = False"
| "js_less (Finite a) PosInfinity = True"
| "js_less (Finite a) NegInfinity = False"

text \<open>
  \<open>a === b\<close> on nodes: NaN is not equal to itself. The keys of a \<open>Map\<close> and the
  members of a \<open>Set\<close> are compared by SameValueZero, under which NaN is one key: that
  comparison is the equality of \<^typ>\<open>Node\<close>.
\<close>

definition strict_eq :: "Node \<Rightarrow> Node \<Rightarrow> bool" where
  "strict_eq a b = (a = b \<and> a \<noteq> Num NaN)"

text \<open>\<open>!x\<close> on a node: the number zero, NaN and the empty string are falsy.\<close>

fun falsy :: "Node \<Rightarrow> bool" where
  "falsy (Str s) = (s = [])"
| "falsy (Num (Finite r)) = (r = 0)"
| "falsy (Num NaN) = True"
| "falsy (Num _) = False"

section \<open>Types (types.ts)\<close>

text \<open>
  \<open>interface Edge { from: Node; to: Node; weight: Weight }\<close>. The record is
  polymorphic so that the validator can be given what the tests give it (endpoints and
  weights of any run-time type), while the graph functions work on edges whose fields
  have their declared types.
\<close>

record ('n, 'w) AnyEdge =
  "from" :: 'n
  to :: 'n
  weight :: 'w

type_synonym Edge = "(Node, jsnum) AnyEdge"
type_synonym RawEdge = "(jsval, jsval) AnyEdge"

text \<open>
  \<open>type Graph = Map<Node, Edge[]>\<close>. A \<open>Map\<close> iterates in insertion order, which the
  analyzer observes, so a graph is an association list with distinct keys:
  \<open>graph.get(k)\<close> is \<^term>\<open>map_of graph k\<close>, \<open>graph.has(k)\<close> is
  \<^term>\<open>k \<in> fst ` set graph\<close>, and \<open>graph.set(k, v)\<close> is \<^term>\<open>AList.update k v graph\<close>
  (an existing key keeps its position, a new key goes last).
\<close>

type_synonym Graph = "(Node \<times> Edge list) list"

datatype GraphError = EmptyGraph | InvalidGraph string

datatype PathError = NodeNotFound Node | NoPath Node Node

record ShortestPath =
  path :: "Node list"
  distance :: jsnum

record GraphAnalysis =
  nodeCount :: nat
  edgeCount :: nat
  isConnected :: bool
  components :: "Node list list"
  density :: real

definition isValidNode :: "jsval \<Rightarrow> bool" where
  "isValidNode node = (typeof node = ''string'' \<or> typeof node = ''number'')"

text \<open>
  \<open>isValidWeight\<close> (types.ts), on a run-time value: a number that is not NaN, is
  finite and is \<open>>= 0\<close>.
\<close>

definition isValidWeight :: "jsval \<Rightarrow> bool" where
  "isValidWeight w =
     (case w of
        Val (Num n) \<Rightarrow> \<not> isNaN n \<and> isFinite n \<and> (js_less (Finite 0) n \<or> n = Finite 0)
      | _ \<Rightarrow> False)"

text \<open>
  The node well-formedness predicate in the words of the specification (data model):
  ``a text label or a finite number -- not null/undefined/object/array''. It is stated
  here only to be compared with \<^const>\<open>isValidNode\<close>, which is the code.
\<close>

definition spec_wellFormedNode :: "jsval \<Rightarrow> bool" where
  "spec_wellFormedNode v =
     (case v of Val (Str s) \<Rightarrow> True | Val (Num n) \<Rightarrow> isFinite n | _ \<Rightarrow> False)"

section \<open>Validator (graph-validator.ts)\<close>

fun validateEdges :: "RawEdge list \<Rightarrow> GraphError + unit" where
  "validateEdges [] = Inr ()"
| "validateEdges (edge # edges) =
     (if \<not> isValidNode (from edge) \<or> \<not> isValidNode (to edge)
      then Inl (InvalidGraph ''Invalid node type'')
      else case weight edge of
        Val (Num w) \<Rightarrow>
          if isNaN w \<or> \<not> isFinite w
          then Inl (InvalidGraph ''Invalid weight: NaN or Infinity'')
          else if js_less w (Finite 0)
          then Inl (InvalidGraph ''Invalid weight: negative value'')
          else validateEdges edges
      | _ \<Rightarrow> Inl (InvalidGraph ''Invalid weight: NaN or Infinity''))"

section \<open>Graph builder (graph-builder.ts)\<close>

definition graph_has :: "Graph \<Rightarrow> Node \<Rightarrow> bool" where
  "graph_has graph k = (k \<in> fst ` set graph)"

text \<open>
  One iteration of the loop of \<open>buildAdjacencyList\<close>. \<open>graph.get(edge.from)!.push(edge)\<close>
  mutates the array stored in the map, so the entry is replaced by the longer list.
\<close>

definition addEdge :: "Edge \<Rightarrow> Graph \<Rightarrow> Graph" where
  "addEdge edge graph =
     (let g1 = (if \<not> graph_has graph (from edge) then AList.update (from edge) [] graph
                else graph);
          g2 = (case map_of g1 (from edge) of
                  Some es \<Rightarrow> AList.update (from edge) (es @ [edge]) g1
                | None \<Rightarrow> g1)
      in if \<not> graph_has g2 (to edge) then AList.update (to edge) [] g2 else g2)"

definition buildAdjacencyList :: "Edge list \<Rightarrow> Graph" where
  "buildAdjacencyList edges = fold addEdge edges []"

text \<open>
  A validated run-time edge read at its declared type (at run time this is the
  identity): defined on the edges whose endpoints are strings or numbers and whose
  weight is a number, which are the only ones that pass \<^const>\<open>validateEdges\<close>.
\<close>

fun asEdge :: "RawEdge \<Rightarrow> Edge option" where
  "asEdge edge =
     (case (from edge, to edge, weight edge) of
        (Val f, Val t, Val (Num w)) \<Rightarrow> Some \<lparr>from = f, to = t, weight = w\<rparr>
      | _ \<Rightarrow> None)"

definition buildGraph :: "RawEdge list \<Rightarrow> GraphError + Graph" where
  "buildGraph edges =
     (if length edges = 0 then Inl EmptyGraph
      else case validateEdges edges of
        Inl error \<Rightarrow> Inl error
      | Inr _ \<Rightarrow> Inr (buildAdjacencyList (List.map_filter asEdge edges)))"

text \<open>An edge of the declared type, as the run-time value it is.\<close>

definition rawEdge :: "Edge \<Rightarrow> RawEdge" where
  "rawEdge e = \<lparr>from = Val (from e), to = Val (to e), weight = Val (Num (weight e))\<rparr>"

text \<open>\<open>graph.get(k) ?? []\<close>: the outgoing list of a node, empty for a node that is no key.\<close>

definition edgesOf :: "Graph \<Rightarrow> Node \<Rightarrow> Edge list" where
  "edgesOf graph k = (case map_of graph k of Some es \<Rightarrow> es | None \<Rightarrow> [])"

section \<open>Priority queue (priority-queue.ts)\<close>

record 'a PriorityQueueItem =
  item :: 'a
  priority :: jsnum

record 'a PriorityQueueState =
  items :: "'a PriorityQueueItem list"

definition createPriorityQueue :: "'a PriorityQueueState" where
  "createPriorityQueue = \<lparr>items = []\<rparr>"

text \<open>
  \<open>Array.prototype.sort(cmp)\<close> is a stable sort: \<open>a\<close> goes before \<open>b\<close> when
  \<open>cmp(a, b) < 0\<close>, and elements that the comparator does not order keep their
  relative positions. It is written as insertion from the left, each element going
  behind everything that is not greater than it. (For a comparator that is not
  consistent, such as one that returns NaN, the language leaves the order to the
  implementation; with valid weights every queued priority is finite and the
  comparator of the queue is consistent.)
\<close>

fun sort_insert :: "('a \<Rightarrow> 'a \<Rightarrow> jsnum) \<Rightarrow> 'a \<Rightarrow> 'a list \<Rightarrow> 'a list" where
  "sort_insert cmp x [] = [x]"
| "sort_insert cmp x (y # ys) =
     (if js_less (cmp x y) (Finite 0) then x # y # ys else y # sort_insert cmp x ys)"

definition js_sort :: "('a \<Rightarrow> 'a \<Rightarrow> jsnum) \<Rightarrow> 'a list \<Rightarrow> 'a list" where
  "js_sort cmp xs = foldl (\<lambda>sorted x. sort_insert cmp x sorted) [] xs"

definition enqueuePriorityQueue ::
  "'a PriorityQueueState \<Rightarrow> 'a \<Rightarrow> jsnum \<Rightarrow> 'a PriorityQueueState" where
  "enqueuePriorityQueue queue it prio =
     (let newItems = items queue @ [\<lparr>item = it, priority = prio\<rparr>]
      in \<lparr>items = js_sort (\<lambda>a b. js_sub (priority a) (priority b)) newItems\<rparr>)"

text \<open>The item is \<open>undefined\<close> (\<open>None\<close>) on an empty queue.\<close>

definition dequeuePriorityQueue ::
  "'a PriorityQueueState \<Rightarrow> 'a option \<times> 'a PriorityQueueState" where
  "dequeuePriorityQueue queue =
     (case items queue of
        [] \<Rightarrow> (None, queue)
      | first # rest \<Rightarrow> (Some (item first), \<lparr>items = rest\<rparr>))"

definition isPriorityQueueEmpty :: "'a PriorityQueueState \<Rightarrow> bool" where
  "isPriorityQueueEmpty queue = (length (items queue) = 0)"

section \<open>Path engine (path-finder.ts)\<close>

text \<open>
  The local state of \<open>executeDijkstraInternal\<close>: the maps \<open>distances\<close> and
  \<open>previous\<close> (of which only \<open>get\<close>, \<open>set\<close> and \<open>has\<close> are used, so their order does
  not matter), the set \<open>visited\<close> and the queue. In \<open>previous\<close> the value \<open>null\<close> is
  \<open>None\<close>, so a key that is present and maps to \<open>null\<close> has the entry \<open>Some None\<close>.
\<close>

record DijkstraState =
  distances :: "Node \<rightharpoonup> jsnum"
  previous :: "Node \<rightharpoonup> Node option"
  visited :: "Node set"
  queue :: "Node PriorityQueueState"

text \<open>The two initialisation loops: over the keys, then over every edge of every list.\<close>

definition initKey :: "Node \<Rightarrow> Node \<Rightarrow> DijkstraState \<Rightarrow> DijkstraState" where
  "initKey start node st =
     st\<lparr>distances := (distances st)(node \<mapsto> (if strict_eq node start then Finite 0 else PosInfinity)),
        previous := (previous st)(node \<mapsto> None)\<rparr>"

definition initDestination :: "Edge \<Rightarrow> DijkstraState \<Rightarrow> DijkstraState" where
  "initDestination edge st =
     (if distances st (to edge) = None
      then st\<lparr>distances := (distances st)(to edge \<mapsto> PosInfinity),
              previous := (previous st)(to edge \<mapsto> None)\<rparr>
      else st)"

definition initDijkstra :: "Graph \<Rightarrow> Node \<Rightarrow> DijkstraState" where
  "initDijkstra graph start =
     (let st0 = \<lparr>distances = Map.empty, previous = Map.empty, visited = {},
                 queue = createPriorityQueue\<rparr>;
          st1 = fold (initKey start) (map fst graph) st0;
          st2 = fold initDestination (concat (map snd graph)) st1
      in st2\<lparr>queue := enqueuePriorityQueue createPriorityQueue start (Finite 0)\<rparr>)"

text \<open>The body of the inner loop, for one edge of the current node.\<close>

definition relaxEdge :: "Node \<Rightarrow> jsnum \<Rightarrow> Edge \<Rightarrow> DijkstraState \<Rightarrow> DijkstraState" where
  "relaxEdge current currentDistance edge st =
     (if to edge \<in> visited st then st
      else let newDistance = js_add currentDistance (weight edge);
               existingDistance = (case distances st (to edge) of Some d \<Rightarrow> d | None \<Rightarrow> PosInfinity)
           in if js_less newDistance existingDistance
              then st\<lparr>distances := (distances st)(to edge \<mapsto> newDistance),
                      previous := (previous st)(to edge \<mapsto> Some current),
                      queue := enqueuePriorityQueue (queue st) (to edge) newDistance\<rparr>
              else st)"

text \<open>
  The body of the \<open>while\<close> loop. \<open>!current\<close> holds for \<open>undefined\<close> and for every
  falsy node.
\<close>

definition dijkstraStep :: "Graph \<Rightarrow> DijkstraState \<Rightarrow> DijkstraState" where
  "dijkstraStep graph st =
     (case dequeuePriorityQueue (queue st) of
        (current, newQueue) \<Rightarrow>
          let st1 = st\<lparr>queue := newQueue\<rparr> in
          case current of
            None \<Rightarrow> st1
          | Some c \<Rightarrow>
              if falsy c \<or> c \<in> visited st1 then st1
              else let st2 = st1\<lparr>visited := insert c (visited st1)\<rparr>;
                       currentDistance = (case distances st2 c of Some d \<Rightarrow> d | None \<Rightarrow> PosInfinity);
                       neighbors = edgesOf graph c
                   in fold (relaxEdge c currentDistance) neighbors st2)"

text \<open>Every node of a graph: its keys and the destinations of its edges.\<close>

definition graphNodes :: "Graph \<Rightarrow> Node set" where
  "graphNodes graph = fst ` set graph \<union> to ` set (concat (map snd graph))"

definition queueNodes :: "DijkstraState \<Rightarrow> Node set" where
  "queueNodes st = item ` set (items (queue st))"

text \<open>
  The \<open>while\<close> loop runs as long as the queue is not empty. It terminates: an iteration
  either visits a node that was not visited, or it only shortens the queue.
\<close>

definition unvisitedCount :: "Graph \<Rightarrow> DijkstraState \<Rightarrow> nat" where
  "unvisitedCount g st = card ((graphNodes g \<union> queueNodes st) - visited st)"

lemma set_sort_insert: "set (sort_insert cmp x ys) = insert x (set ys)"
  by (induction ys) auto

lemma set_foldl_sort_insert:
  "set (foldl (\<lambda>sorted x. sort_insert cmp x sorted) acc xs) = set acc \<union> set xs"
  by (induction xs arbitrary: acc) (auto simp: set_sort_insert)

lemma set_js_sort: "set (js_sort cmp xs) = set xs"
  by (simp add: js_sort_def set_foldl_sort_insert)

lemma items_enqueue:
  "set (items (enqueuePriorityQueue q x p)) = insert \<lparr>item = x, priority = p\<rparr> (set (items q))"
  by (simp add: enqueuePriorityQueue_def set_js_sort)

lemma visited_relaxEdge: "visited (relaxEdge c d e st) = visited st"
  by (simp add: relaxEdge_def Let_def)

lemma queueNodes_relaxEdge:
  "queueNodes (relaxEdge c d e st) \<subseteq> insert (to e) (queueNodes st)"
  by (auto simp: relaxEdge_def Let_def queueNodes_def items_enqueue)

lemma visited_fold_relaxEdge: "visited (fold (relaxEdge c d) es st) = visited st"
  by (induction es arbitrary: st) (simp_all add: visited_relaxEdge)

lemma queueNodes_fold_relaxEdge:
  "queueNodes (fold (relaxEdge c d) es st) \<subseteq> to ` set es \<union> queueNodes st"
proof (induction es arbitrary: st)
  case Nil
  show ?case by simp
next
  case (Cons e es)
  show ?case
    using Cons.IH [of "relaxEdge c d e st"] queueNodes_relaxEdge [of c d e st] by auto
qed

lemma edgesOf_nodes: "to ` set (edgesOf g c) \<subseteq> graphNodes g"
proof (cases "map_of g c")
  case None
  then show ?thesis by (simp add: edgesOf_def)
next
  case (Some es)
  then have "(c, es) \<in> set g" by (rule map_of_SomeD)
  then show ?thesis using Some by (force simp: edgesOf_def graphNodes_def)
qed

lemma finite_universe: "finite (graphNodes g \<union> queueNodes st)"
  by (simp add: graphNodes_def queueNodes_def)

lemma dijkstraStep_cases:
  assumes "items (queue st) = first # rest"
  shows "(dijkstraStep g st = st\<lparr>queue := \<lparr>items = rest\<rparr>\<rparr> \<and>
          (falsy (item first) \<or> item first \<in> visited st)) \<or>
         (dijkstraStep g st =
            fold (relaxEdge (item first)
                   (case distances st (item first) of Some d \<Rightarrow> d | None \<Rightarrow> PosInfinity))
              (edgesOf g (item first))
              (st\<lparr>queue := \<lparr>items = rest\<rparr>, visited := insert (item first) (visited st)\<rparr>) \<and>
          \<not> falsy (item first) \<and> item first \<notin> visited st)"
  using assms by (simp add: dijkstraStep_def dequeuePriorityQueue_def Let_def)

lemma dijkstraStep_decreases:
  assumes "\<not> isPriorityQueueEmpty (queue st)"
  shows "unvisitedCount g (dijkstraStep g st) < unvisitedCount g st \<or>
         (unvisitedCount g (dijkstraStep g st) = unvisitedCount g st \<and>
          length (items (queue (dijkstraStep g st))) < length (items (queue st)))"
proof -
  from assms obtain first rest where q: "items (queue st) = first # rest"
    by (cases "items (queue st)") (auto simp: isPriorityQueueEmpty_def)
  let ?c = "item first"
  from dijkstraStep_cases [OF q, of g]
  consider (skip) "dijkstraStep g st = st\<lparr>queue := \<lparr>items = rest\<rparr>\<rparr>"
    | (visit) "dijkstraStep g st =
            fold (relaxEdge ?c (case distances st ?c of Some d \<Rightarrow> d | None \<Rightarrow> PosInfinity))
              (edgesOf g ?c)
              (st\<lparr>queue := \<lparr>items = rest\<rparr>, visited := insert ?c (visited st)\<rparr>)"
        "?c \<notin> visited st"
    by blast
  then show ?thesis
  proof cases
    case skip
    have "(graphNodes g \<union> queueNodes (dijkstraStep g st)) - visited (dijkstraStep g st)
        \<subseteq> (graphNodes g \<union> queueNodes st) - visited st"
      by (auto simp: skip queueNodes_def q)
    then have "unvisitedCount g (dijkstraStep g st) \<le> unvisitedCount g st"
      unfolding unvisitedCount_def
      by (intro card_mono finite_Diff finite_universe)
    moreover have "length (items (queue (dijkstraStep g st))) < length (items (queue st))"
      by (simp add: skip q)
    ultimately show ?thesis by linarith
  next
    case visit
    note eq = visit(1) and nv = visit(2)
    have v: "visited (dijkstraStep g st) = insert ?c (visited st)"
      by (simp add: eq visited_fold_relaxEdge)
    have "queueNodes (dijkstraStep g st) \<subseteq> graphNodes g \<union> queueNodes st"
      unfolding eq
      using queueNodes_fold_relaxEdge [of ?c _ "edgesOf g ?c"
          "st\<lparr>queue := \<lparr>items = rest\<rparr>, visited := insert ?c (visited st)\<rparr>"]
        edgesOf_nodes [of g ?c]
      by (auto simp: queueNodes_def q)
    then have "(graphNodes g \<union> queueNodes (dijkstraStep g st)) - visited (dijkstraStep g st)
        \<subset> (graphNodes g \<union> queueNodes st) - visited st"
      using nv by (auto simp: v queueNodes_def q)
    then have "unvisitedCount g (dijkstraStep g st) < unvisitedCount g st"
      unfolding unvisitedCount_def
      by (intro psubset_card_mono finite_Diff finite_universe)
    then show ?thesis by simp
  qed
qed

function dijkstraLoop :: "Graph \<Rightarrow> DijkstraState \<Rightarrow> DijkstraState" where
  "dijkstraLoop graph st =
     (if isPriorityQueueEmpty (queue st) then st else dijkstraLoop graph (dijkstraStep graph st))"
  by pat_completeness auto
termination
proof (relation "measures [\<lambda>(g, st). unvisitedCount g st, \<lambda>(g, st). length (items (queue st))]")
  show "wf (measures [\<lambda>(g, st). unvisitedCount g st, \<lambda>(g, st). length (items (queue st))])"
    by simp
next
  fix graph :: Graph and st :: DijkstraState
  assume "\<not> isPriorityQueueEmpty (queue st)"
  from dijkstraStep_decreases [OF this, of graph]
  show "((graph, dijkstraStep graph st), (graph, st))
      \<in> measures [\<lambda>(g, st). unvisitedCount g st, \<lambda>(g, st). length (items (queue st))]"
    by auto
qed

declare dijkstraLoop.simps [simp del]

text \<open>
  \<open>executeDijkstraInternal\<close> returns the two maps; here it returns the final state of
  the loop, of which the callers read \<^const>\<open>distances\<close> and \<^const>\<open>previous\<close>.
\<close>

definition executeDijkstraInternal :: "Graph \<Rightarrow> Node \<Rightarrow> DijkstraState" where
  "executeDijkstraInternal graph start = dijkstraLoop graph (initDijkstra graph start)"

text \<open>
  The backward walk of \<open>reconstructPathInternal\<close>:
  \<open>while (current !== null) { path.unshift(current); current = previous.get(current) ?? null }\<close>.
  Nothing in the loop itself bounds it, so it is a partial function: \<open>None\<close> is a walk
  that never ends.
\<close>

partial_function (option) reconstructLoop ::
  "(Node \<rightharpoonup> Node option) \<Rightarrow> Node option \<Rightarrow> Node list \<Rightarrow> Node list option" where
  "reconstructLoop prev current acc =
     (case current of
        None \<Rightarrow> Some acc
      | Some c \<Rightarrow> reconstructLoop prev (case prev c of Some p \<Rightarrow> p | None \<Rightarrow> None) (c # acc))"

declare reconstructLoop.simps [code]

definition reconstructPathInternal ::
  "(Node \<rightharpoonup> Node option) \<Rightarrow> (Node \<rightharpoonup> jsnum) \<Rightarrow> Node \<Rightarrow> (PathError + ShortestPath) option" where
  "reconstructPathInternal prev dists target =
     (case dists target of
        None \<Rightarrow> Some (Inl (NodeNotFound target))
      | Some d \<Rightarrow>
          if d = PosInfinity then Some (Inl (NodeNotFound target))
          else case reconstructLoop prev (Some target) [] of
                 None \<Rightarrow> None
               | Some p \<Rightarrow> Some (Inr \<lparr>path = p, distance = d\<rparr>))"

text \<open>\<open>findPaths\<close>; the result is \<open>None\<close> if the backward walk does not end.\<close>

definition findPaths :: "Graph \<Rightarrow> Node \<Rightarrow> Node \<Rightarrow> (PathError + ShortestPath) option" where
  "findPaths graph start target =
     (if length graph = 0 then Some (Inl (NodeNotFound start))
      else if \<not> graph_has graph start then Some (Inl (NodeNotFound start))
      else let r = executeDijkstraInternal graph start in
        case reconstructPathInternal (previous r) (distances r) target of
          None \<Rightarrow> None
        | Some (Inl error) \<Rightarrow>
            (case error of
               NodeNotFound n \<Rightarrow>
                 if distances r target = None then Some (Inl (NodeNotFound target))
                 else Some (Inl (NoPath start target))
             | _ \<Rightarrow> Some (Inl error))
        | Some (Inr v) \<Rightarrow> Some (Inr v))"

section \<open>Analyzer (graph-analyzer.ts)\<close>

text \<open>
  A \<open>Set\<close> that is iterated (\<open>Array.from\<close>) is a list without repetitions in insertion
  order; \<open>add\<close> appends an element that is not there yet.
\<close>

definition set_add :: "'a \<Rightarrow> 'a list \<Rightarrow> 'a list" where
  "set_add x xs = (if x \<in> set xs then xs else xs @ [x])"

definition extractAllNodes :: "Graph \<Rightarrow> Node list" where
  "extractAllNodes graph =
     (let nodes = fold set_add (map fst graph) []
      in fold (\<lambda>edge nodes. set_add (to edge) nodes) (concat (map snd graph)) nodes)"

definition calculateEdgeCount :: "Graph \<Rightarrow> nat" where
  "calculateEdgeCount graph = fold (\<lambda>edges edgeCount. edgeCount + length edges) (map snd graph) 0"

definition calculateDensity :: "nat \<Rightarrow> nat \<Rightarrow> real" where
  "calculateDensity nNodes nEdges =
     (if nNodes \<le> 1 then 0
      else let maxEdges = nNodes * (nNodes - 1) in real nEdges / real maxEdges)"

text \<open>
  The stack of \<open>exploreComponent\<close> is a list whose head is the top: \<open>push\<close> is
  \<open>#\<close> and \<open>pop\<close> takes the head. The set \<open>visited\<close> (here \<open>vis\<close>) is only asked for
  membership.
\<close>

definition addDirectAdjacentNodes :: "Graph \<Rightarrow> Node \<Rightarrow> Node set \<Rightarrow> Node list \<Rightarrow> Node list" where
  "addDirectAdjacentNodes graph current vis stack =
     fold (\<lambda>edge stack. if to edge \<notin> vis then to edge # stack else stack)
       (edgesOf graph current) stack"

definition addReverseAdjacentNodes :: "Graph \<Rightarrow> Node \<Rightarrow> Node set \<Rightarrow> Node list \<Rightarrow> Node list" where
  "addReverseAdjacentNodes graph current vis stack =
     fold (\<lambda>(node, nodeEdges) stack.
             fold (\<lambda>edge stack.
                     if strict_eq (to edge) current \<and> node \<notin> vis then node # stack else stack)
               nodeEdges stack)
       graph stack"

definition addAdjacentNodes :: "Graph \<Rightarrow> Node \<Rightarrow> Node set \<Rightarrow> Node list \<Rightarrow> Node list" where
  "addAdjacentNodes graph current vis stack =
     addReverseAdjacentNodes graph current vis
       (addDirectAdjacentNodes graph current vis stack)"

lemma set_fold_push:
  "set (fold (\<lambda>x stack. if P x then f x # stack else stack) xs stack) \<subseteq> set stack \<union> f ` set xs"
proof (induction xs arbitrary: stack)
  case Nil
  show ?case by simp
next
  case (Cons x xs)
  show ?case
    using Cons.IH [of "if P x then f x # stack else stack"] by (auto split: if_splits)
qed

lemma set_addDirect:
  "set (addDirectAdjacentNodes g c vis stack) \<subseteq> set stack \<union> to ` set (edgesOf g c)"
  unfolding addDirectAdjacentNodes_def
  using set_fold_push [of "\<lambda>e. to e \<notin> vis" to "edgesOf g c" stack] by simp

lemma set_addReverse:
  "set (addReverseAdjacentNodes g c vis stack) \<subseteq> set stack \<union> fst ` set g"
  unfolding addReverseAdjacentNodes_def
proof (induction g arbitrary: stack)
  case Nil
  show ?case by simp
next
  case (Cons a h)
  obtain node es where a: "a = (node, es)" by (cases a)
  let ?s = "fold (\<lambda>edge stack. if strict_eq (to edge) c \<and> node \<notin> vis then node # stack else stack) es stack"
  have "set ?s \<subseteq> set stack \<union> (\<lambda>e. node) ` set es"
    by (rule set_fold_push)
  then have "set ?s \<subseteq> insert node (set stack)" by auto
  then show ?case using Cons.IH [of ?s] by (auto simp: a)
qed

lemma set_addAdjacent:
  "set (addAdjacentNodes g c vis stack) \<subseteq> set stack \<union> graphNodes g"
proof -
  have "set (addAdjacentNodes g c vis stack)
      \<subseteq> set (addDirectAdjacentNodes g c vis stack) \<union> fst ` set g"
    unfolding addAdjacentNodes_def by (rule set_addReverse)
  also have "\<dots> \<subseteq> (set stack \<union> to ` set (edgesOf g c)) \<union> fst ` set g"
    using set_addDirect [of g c vis stack] by blast
  also have "\<dots> \<subseteq> set stack \<union> graphNodes g"
    using edgesOf_nodes [of g c] by (auto simp: graphNodes_def)
  finally show ?thesis .
qed

text \<open>
  The loop of \<open>exploreComponent\<close>. It terminates: an iteration either visits a node
  that was not visited, or it only pops the stack.
\<close>

definition unexplored :: "Graph \<Rightarrow> Node set \<Rightarrow> Node list \<Rightarrow> nat" where
  "unexplored g vis stack = card ((graphNodes g \<union> set stack) - vis)"

function exploreLoop :: "Graph \<Rightarrow> Node set \<Rightarrow> Node list \<Rightarrow> Node list \<Rightarrow> Node list \<times> Node set" where
  "exploreLoop graph vis component [] = (component, vis)"
| "exploreLoop graph vis component (current # stack) =
     (if current \<in> vis then exploreLoop graph vis component stack
      else exploreLoop graph (insert current vis) (component @ [current])
             (addAdjacentNodes graph current (insert current vis) stack))"
  by pat_completeness auto
termination
proof (relation "measures [\<lambda>(g, vis, c, stack). unexplored g vis stack, \<lambda>(g, vis, c, stack). length stack]")
  show "wf (measures [\<lambda>(g, vis, c::Node list, stack). unexplored g vis stack,
      \<lambda>(g::Graph, vis::Node set, c::Node list, stack::Node list). length stack])"
    by simp
next
  fix graph :: Graph and vis :: "Node set" and component :: "Node list" and current stack
  assume "current \<in> vis"
  have "(graphNodes graph \<union> set stack) - vis \<subseteq> (graphNodes graph \<union> set (current # stack)) - vis"
    by auto
  then have "unexplored graph vis stack \<le> unexplored graph vis (current # stack)"
    unfolding unexplored_def by (intro card_mono) (simp_all add: graphNodes_def)
  then show "((graph, vis, component, stack), (graph, vis, component, current # stack))
      \<in> measures [\<lambda>(g, vis, c, stack). unexplored g vis stack, \<lambda>(g, vis, c, stack). length stack]"
    by auto
next
  fix graph :: Graph and vis :: "Node set" and component :: "Node list" and current stack
  assume nv: "current \<notin> vis"
  have "(graphNodes graph \<union> set (addAdjacentNodes graph current (insert current vis) stack)) - insert current vis
      \<subset> (graphNodes graph \<union> set (current # stack)) - vis"
    using set_addAdjacent [of graph current "insert current vis" stack] nv by auto
  then have "unexplored graph (insert current vis) (addAdjacentNodes graph current (insert current vis) stack)
      < unexplored graph vis (current # stack)"
    unfolding unexplored_def by (intro psubset_card_mono) (simp_all add: graphNodes_def)
  then show "((graph, insert current vis, component @ [current],
        addAdjacentNodes graph current (insert current vis) stack),
       (graph, vis, component, current # stack))
      \<in> measures [\<lambda>(g, vis, c, stack). unexplored g vis stack, \<lambda>(g, vis, c, stack). length stack]"
    by auto
qed

declare exploreLoop.simps [simp del]

definition exploreComponent :: "Graph \<Rightarrow> Node \<Rightarrow> Node set \<Rightarrow> Node list \<times> Node set" where
  "exploreComponent graph startNode vis = exploreLoop graph vis [] [startNode]"

text \<open>
  \<open>exploreComponent\<close> adds to the caller's \<open>visited\<close> set, so it returns the set
  with the component. \<open>componentsStep\<close> is the body of the loop of
  \<open>findConnectedComponents\<close>.
\<close>

definition componentsStep :: "Graph \<Rightarrow> Node \<Rightarrow> Node list list \<times> Node set \<Rightarrow> Node list list \<times> Node set" where
  "componentsStep graph startNode acc =
     (case acc of (comps, vis) \<Rightarrow>
        if startNode \<in> vis then (comps, vis)
        else case exploreComponent graph startNode vis of
               (component, vis') \<Rightarrow> (comps @ [component], vis'))"

definition findConnectedComponents :: "Graph \<Rightarrow> Node list \<Rightarrow> Node list list" where
  "findConnectedComponents graph allNodes = fst (fold (componentsStep graph) allNodes ([], {}))"

definition analyzeGraph :: "Graph \<Rightarrow> GraphError + GraphAnalysis" where
  "analyzeGraph graph =
     (if length graph = 0 then Inl EmptyGraph
      else let allNodes = extractAllNodes graph;
               nNodes = length allNodes;
               nEdges = calculateEdgeCount graph;
               comps = findConnectedComponents graph allNodes
           in Inr \<lparr>nodeCount = nNodes, edgeCount = nEdges, isConnected = (length comps \<le> 1),
                   components = comps, density = calculateDensity nNodes nEdges\<rparr>)"

section \<open>Paths in a graph\<close>

text \<open>
  \<open>connects g p es\<close>: the node list \<open>p\<close> is a directed path of \<open>g\<close> and \<open>es\<close> are
  its edges, each taken from the adjacency list of the node it leaves.
  \<open>pathWeight\<close> adds the weights up from the source on, as the engine does.
\<close>

fun connects :: "Graph \<Rightarrow> Node list \<Rightarrow> Edge list \<Rightarrow> bool" where
  "connects g [v] [] = True"
| "connects g (u # v # p) (e # es) =
     (e \<in> set (edgesOf g u) \<and> to e = v \<and> connects g (v # p) es)"
| "connects g _ _ = False"

definition pathWeight :: "Edge list \<Rightarrow> jsnum" where
  "pathWeight es = foldl js_add (Finite 0) (map weight es)"

section \<open>Invariants of the path engine\<close>

text \<open>
  \<open>backPath prev v p\<close>: following \<open>prev\<close> from \<open>v\<close> reaches \<open>null\<close> (or a node
  without an entry), and \<open>p\<close> lists the nodes met, the last one met first; it is what
  the backward walk from \<open>v\<close> builds.
\<close>

inductive backPath :: "(Node \<rightharpoonup> Node option) \<Rightarrow> Node \<Rightarrow> Node list \<Rightarrow> bool"
  for prev :: "Node \<rightharpoonup> Node option" where
  root: "(case prev v of Some p \<Rightarrow> p | None \<Rightarrow> None) = None \<Longrightarrow> backPath prev v [v]"
| link: "prev v = Some (Some u) \<Longrightarrow> backPath prev u p \<Longrightarrow> backPath prev v (p @ [v])"

text \<open>
  The predecessor of a node is set only while the node is not visited, to the node
  being expanded, which is visited. So the chain of a visited node stays inside the
  visited set, and a node that is not visited points, if anywhere, to a visited node.
\<close>

definition chainsInv :: "DijkstraState \<Rightarrow> bool" where
  "chainsInv st \<longleftrightarrow>
     (\<forall>v \<in> visited st. \<exists>p. backPath (previous st) v p \<and> set p \<subseteq> visited st) \<and>
     (\<forall>v u. v \<notin> visited st \<longrightarrow> previous st v = Some (Some u) \<longrightarrow> u \<in> visited st)"

text \<open>
  \<open>cert g s prev dm v p es\<close>: the chain of \<open>v\<close> is the path \<open>p\<close> from the start \<open>s\<close>,
  \<open>es\<close> are edges of \<open>g\<close> along it, and every recorded distance on it is the distance
  of the predecessor plus the weight of the edge taken.
\<close>

inductive cert ::
  "Graph \<Rightarrow> Node \<Rightarrow> (Node \<rightharpoonup> Node option) \<Rightarrow> (Node \<rightharpoonup> jsnum) \<Rightarrow> Node \<Rightarrow> Node list \<Rightarrow> Edge list \<Rightarrow> bool"
  for g :: Graph and s :: Node and prev :: "Node \<rightharpoonup> Node option" and dm :: "Node \<rightharpoonup> jsnum" where
  croot: "prev s = Some None \<Longrightarrow> dm s = Some (Finite 0) \<Longrightarrow> cert g s prev dm s [s] []"
| clink: "prev v = Some (Some u) \<Longrightarrow> cert g s prev dm u p es \<Longrightarrow> e \<in> set (edgesOf g u) \<Longrightarrow>
          to e = v \<Longrightarrow> dm u = Some du \<Longrightarrow> dm v = Some (js_add du (weight e)) \<Longrightarrow>
          cert g s prev dm v (p @ [v]) (es @ [e])"

text \<open>
  The invariant of the loop for a start node that is a key: every visited node has a
  certificate inside the visited set; a node that is not visited and has a distance
  other than \<open>Infinity\<close> is the start itself or hangs by an edge on a visited node; and a
  queued node is visited, falsy, or has a distance other than \<open>Infinity\<close>.
\<close>

definition certInv :: "Graph \<Rightarrow> Node \<Rightarrow> DijkstraState \<Rightarrow> bool" where
  "certInv g s st \<longleftrightarrow>
     (\<forall>v \<in> visited st. \<exists>p es. cert g s (previous st) (distances st) v p es \<and> set p \<subseteq> visited st) \<and>
     (\<forall>v d. v \<notin> visited st \<longrightarrow> distances st v = Some d \<longrightarrow> d \<noteq> PosInfinity \<longrightarrow>
        (v = s \<and> previous st s = Some None \<and> d = Finite 0) \<or>
        (\<exists>u e du. u \<in> visited st \<and> previous st v = Some (Some u) \<and> e \<in> set (edgesOf g u) \<and>
           to e = v \<and> distances st u = Some du \<and> d = js_add du (weight e))) \<and>
     (\<forall>c \<in> queueNodes st. c \<in> visited st \<or> falsy c \<or>
        (\<exists>d. distances st c = Some d \<and> d \<noteq> PosInfinity))"

text \<open>Every weight stored in the graph is a valid weight (\<open>isValidWeight\<close>).\<close>

definition validWeights :: "Graph \<Rightarrow> bool" where
  "validWeights g = (\<forall>e \<in> set (concat (map snd g)). isValidWeight (Val (Num (weight e))))"

text \<open>A node has a recorded distance other than \<open>Infinity\<close>.\<close>

definition finiteAt :: "Node \<Rightarrow> DijkstraState \<Rightarrow> bool" where
  "finiteAt v st \<longleftrightarrow> (\<exists>d. distances st v = Some d \<and> d \<noteq> PosInfinity)"

text \<open>\<open>t\<close> is reachable from \<open>s\<close> along directed edges of the adjacency lists.\<close>

definition reachable :: "Graph \<Rightarrow> Node \<Rightarrow> Node \<Rightarrow> bool" where
  "reachable g s t \<longleftrightarrow> (\<exists>p es. connects g p es \<and> hd p = s \<and> last p = t)"

section \<open>Invariants of the analyzer\<close>

text \<open>
  The state of the loop of \<open>findConnectedComponents\<close>: the visited set is the union of
  the components found so far, no node is listed twice, no component is empty, and
  only nodes of the graph are visited.
\<close>

definition partInv :: "Graph \<Rightarrow> Node list list \<times> Node set \<Rightarrow> bool" where
  "partInv g acc \<longleftrightarrow>
     (case acc of (comps, vis) \<Rightarrow>
        vis = \<Union> (set ` set comps) \<and> distinct (concat comps) \<and> [] \<notin> set comps \<and>
        vis \<subseteq> graphNodes g)"

text \<open>
  Undirected adjacency, as the specification describes it: \<open>v\<close> is the destination of
  an edge in the list of \<open>u\<close>, or the other way round. \<open>connectedTo g u\<close> is the class
  of \<open>u\<close> under undirected reachability.
\<close>

definition uadj :: "Graph \<Rightarrow> Node \<Rightarrow> Node \<Rightarrow> bool" where
  "uadj g u v \<longleftrightarrow> (\<exists>e \<in> set (edgesOf g u). to e = v) \<or> (\<exists>e \<in> set (edgesOf g v). to e = u)"

definition connectedTo :: "Graph \<Rightarrow> Node \<Rightarrow> Node set" where
  "connectedTo g u = {v. (u, v) \<in> {(a, b). uadj g a b}\<^sup>*}"

text \<open>
  The visited set is closed under adjacency, and every component found so far is the
  class of one of its nodes.
\<close>

definition classInv :: "Graph \<Rightarrow> Node list list \<times> Node set \<Rightarrow> bool" where
  "classInv g acc \<longleftrightarrow>
     (case acc of (comps, vis) \<Rightarrow>
        (\<forall>u \<in> vis. \<forall>v. uadj g u v \<longrightarrow> v \<in> vis) \<and>
        (\<forall>c \<in> set comps. \<exists>u \<in> set c. set c = connectedTo g u))"

text \<open>
  The invariants behind optimality, for graphs with valid weights. \<open>distOf\<close> is
  \<open>distances.get(v) ?? Infinity\<close>; \<open>prioVal\<close> reads a finite priority.
\<close>

definition distOf :: "DijkstraState \<Rightarrow> Node \<Rightarrow> jsnum" where
  "distOf st v = (case distances st v of Some d \<Rightarrow> d | None \<Rightarrow> PosInfinity)"

definition prioVal :: "'a PriorityQueueItem \<Rightarrow> real" where
  "prioVal x = (case priority x of Finite r \<Rightarrow> r | _ \<Rightarrow> 0)"

definition finitePrio :: "'a PriorityQueueItem \<Rightarrow> bool" where
  "finitePrio x = isFinite (priority x)"

text \<open>
  \<open>optInv g s X st\<close>: every distance is \<open>Infinity\<close> or a finite number \<open>\<ge> 0\<close> and the
  start has distance 0; visited nodes have finite distances; every queue entry is a
  node of the graph with a finite priority that is at least the node's distance; every
  node that is not visited and has a finite distance has an entry with exactly that
  priority; the queue is sorted; no visited node is farther than any queue entry; and
  the edges of the nodes in \<open>X\<close> are relaxed. \<open>below a st\<close>: no visited node is farther
  than \<open>a\<close>.
\<close>

definition optInv :: "Graph \<Rightarrow> Node \<Rightarrow> Node set \<Rightarrow> DijkstraState \<Rightarrow> bool" where
  "optInv g s X st \<longleftrightarrow>
     (\<forall>v. distOf st v = PosInfinity \<or> (\<exists>a\<ge>0. distOf st v = Finite a)) \<and>
     distOf st s = Finite 0 \<and>
     (\<forall>v \<in> visited st. \<exists>a. distOf st v = Finite a) \<and>
     (\<forall>x \<in> set (items (queue st)). item x \<in> graphNodes g \<and>
        (\<exists>r a. priority x = Finite r \<and> distOf st (item x) = Finite a \<and> a \<le> r)) \<and>
     (\<forall>v a. v \<notin> visited st \<longrightarrow> distOf st v = Finite a \<longrightarrow>
        \<lparr>item = v, priority = Finite a\<rparr> \<in> set (items (queue st))) \<and>
     sorted (map prioVal (items (queue st))) \<and>
     (\<forall>v \<in> visited st. \<forall>x \<in> set (items (queue st)).
        \<exists>a r. distOf st v = Finite a \<and> priority x = Finite r \<and> a \<le> r) \<and>
     (\<forall>u \<in> X. \<forall>e \<in> set (edgesOf g u).
        \<exists>a w b. distOf st u = Finite a \<and> weight e = Finite w \<and> distOf st (to e) = Finite b \<and> b \<le> a + w)"

definition below :: "real \<Rightarrow> DijkstraState \<Rightarrow> bool" where
  "below a st \<longleftrightarrow> (\<forall>v \<in> visited st. \<exists>b. distOf st v = Finite b \<and> b \<le> a)"

section \<open>Properties of the validator\<close>

lemma isValidNode_iff: "isValidNode v \<longleftrightarrow> (\<exists>n. v = Val n)"
  by (cases v rule: typeof.cases) (simp_all add: isValidNode_def)

lemma validateEdges_append:
  "validateEdges pre = Inr () \<Longrightarrow> validateEdges (pre @ rest) = validateEdges rest"
  by (induction pre) (auto split: if_splits jsval.splits Node.splits)

lemma js_nonneg_iff: "\<not> isNaN n \<Longrightarrow> isFinite n \<Longrightarrow>
    (js_less (Finite 0) n \<or> n = Finite 0) \<longleftrightarrow> \<not> js_less n (Finite 0)"
  by (cases n) auto

lemma validateEdges_ok_iff:
  "validateEdges edges = Inr () \<longleftrightarrow>
     (\<forall>e \<in> set edges. isValidNode (from e) \<and> isValidNode (to e) \<and> isValidWeight (weight e))"
  by (induction edges)
    (auto simp: isValidWeight_def js_nonneg_iff split: jsval.splits Node.splits)

text \<open>
  C4, as the claim states it, fails twice over. \<open>isValidNode\<close> is a check of the
  run-time type only, so an edge from the number NaN passes validation although NaN is
  no finite number; and an edge with a \<open>null\<close> endpoint that comes after an edge with
  a negative weight is never looked at: the earlier edge's weight error is returned.
\<close>

theorem validateEdges_node_type_counterexample:
  "\<not> spec_wellFormedNode (Val (Num NaN)) \<and>
   validateEdges
     [\<lparr>from = Val (Num NaN), to = Val (Str ''B''), weight = Val (Num (Finite 1))\<rparr>] = Inr () \<and>
   \<not> spec_wellFormedNode JNull \<and>
   validateEdges
     [\<lparr>from = Val (Str ''A''), to = Val (Str ''B''), weight = Val (Num (Finite (- 1)))\<rparr>,
      \<lparr>from = JNull, to = Val (Str ''C''), weight = Val (Num (Finite 2))\<rparr>]
     = Inl (InvalidGraph ''Invalid weight: negative value'')"
  by (simp add: spec_wellFormedNode_def isValidNode_def)

text \<open>
  C4, amended: if an edge has an endpoint that is neither a string nor a number
  (\<open>null\<close>, \<open>undefined\<close>, an object, an array; every number, NaN and the infinities
  included, is accepted as a node), and every edge before it passes all checks (both
  endpoints are strings or numbers and the weight is a finite non-negative number), then
  \<open>validateEdges\<close>, and with it \<open>buildGraph\<close>, returns
  \<open>InvalidGraph\<close> with the reason \<open>Invalid node type\<close>.
\<close>

theorem validateEdges_invalid_node_type:
  assumes "\<forall>e \<in> set pre. isValidNode (from e) \<and> isValidNode (to e) \<and> isValidWeight (weight e)"
    and "\<not> isValidNode (from edge) \<or> \<not> isValidNode (to edge)"
  shows "validateEdges (pre @ edge # post) = Inl (InvalidGraph ''Invalid node type'') \<and>
         buildGraph (pre @ edge # post) = Inl (InvalidGraph ''Invalid node type'')"
proof -
  have "validateEdges pre = Inr ()"
    using assms(1) by (simp add: validateEdges_ok_iff)
  then have "validateEdges (pre @ edge # post) = validateEdges (edge # post)"
    by (rule validateEdges_append)
  also have "\<dots> = Inl (InvalidGraph ''Invalid node type'')"
    using assms(2) by auto
  finally show ?thesis by (simp add: buildGraph_def)
qed

theorem validateEdges_invalid_node_type_witness:
  "validateEdges
     ([\<lparr>from = Val (Str ''A''), to = Val (Str ''B''), weight = Val (Num (Finite 1))\<rparr>] @
       \<lparr>from = JNull, to = Val (Str ''C''), weight = Val (Num (Finite 2))\<rparr> # [])
     = Inl (InvalidGraph ''Invalid node type'') \<and>
   buildGraph
     ([\<lparr>from = Val (Str ''A''), to = Val (Str ''B''), weight = Val (Num (Finite 1))\<rparr>] @
       \<lparr>from = JNull, to = Val (Str ''C''), weight = Val (Num (Finite 2))\<rparr> # [])
     = Inl (InvalidGraph ''Invalid node type'')"
  using validateEdges_invalid_node_type
    [of "[\<lparr>from = Val (Str ''A''), to = Val (Str ''B''), weight = Val (Num (Finite 1))\<rparr>]"
        "\<lparr>from = JNull, to = Val (Str ''C''), weight = Val (Num (Finite 2))\<rparr>" "[]"]
  by (simp add: isValidNode_def isValidWeight_def)

section \<open>Properties of the graph builder\<close>

lemma graph_has_map_of: "graph_has g k \<longleftrightarrow> map_of g k \<noteq> None"
  by (simp add: graph_has_def map_of_eq_None_iff)

lemma map_of_addEdge:
  "map_of (addEdge e g) =
     ((map_of g)(from e \<mapsto> edgesOf g (from e) @ [e]))
       (to e \<mapsto> (if to e = from e then edgesOf g (from e) @ [e] else edgesOf g (to e)))"
  unfolding addEdge_def Let_def edgesOf_def
  by (auto simp: graph_has_map_of update_conv' fun_eq_iff split: option.splits)

lemma distinct_addEdge: "distinct (map fst g) \<Longrightarrow> distinct (map fst (addEdge e g))"
  unfolding addEdge_def Let_def
  by (auto simp: distinct_update split: option.splits)

lemma edgesOf_addEdge:
  "edgesOf (addEdge e g) k = edgesOf g k @ (if from e = k then [e] else [])"
  by (auto simp: edgesOf_def map_of_addEdge split: option.splits)

lemma keys_addEdge: "fst ` set (addEdge e g) = insert (from e) (insert (to e) (fst ` set g))"
proof -
  have "dom (map_of (addEdge e g)) = insert (from e) (insert (to e) (dom (map_of g)))"
    by (auto simp: map_of_addEdge split: if_splits)
  then show ?thesis by (simp add: dom_map_of_conv_image_fst)
qed

lemma fold_addEdge:
  "distinct (map fst g) \<Longrightarrow>
   distinct (map fst (fold addEdge es g)) \<and>
   fst ` set (fold addEdge es g) = fst ` set g \<union> from ` set es \<union> to ` set es \<and>
   (\<forall>k. edgesOf (fold addEdge es g) k = edgesOf g k @ filter (\<lambda>e. from e = k) es)"
proof (induction es arbitrary: g)
  case Nil
  then show ?case by simp
next
  case (Cons e es)
  from Cons.IH [OF distinct_addEdge [OF Cons.prems, of e]]
  show ?case by (auto simp: keys_addEdge edgesOf_addEdge)
qed

lemma buildAdjacencyList_props:
  "distinct (map fst (buildAdjacencyList es)) \<and>
   fst ` set (buildAdjacencyList es) = from ` set es \<union> to ` set es \<and>
   (\<forall>k. edgesOf (buildAdjacencyList es) k = filter (\<lambda>e. from e = k) es)"
  using fold_addEdge [of "[]" es] by (simp add: buildAdjacencyList_def edgesOf_def)

lemma validated_typed:
  "validateEdges edges = Inr () \<Longrightarrow> map rawEdge (List.map_filter asEdge edges) = edges"
proof (induction edges)
  case Nil
  show ?case by (simp add: map_filter_simps)
next
  case (Cons e es)
  then show ?case
    by (auto simp: map_filter_simps rawEdge_def isValidNode_iff
        split: if_splits jsval.splits Node.splits)
qed

lemmas eval_build = buildGraph_def buildAdjacencyList_def addEdge_def graph_has_def
  map_filter_simps isValidNode_def

text \<open>
  C6: a non-empty edge list that passes validation is a list \<open>es\<close> of edges of the
  declared type; \<open>buildGraph\<close> succeeds on it, and in the graph it returns the keys are
  distinct and are exactly the \<open>from\<close> and \<open>to\<close> endpoints of \<open>es\<close>, every key maps to
  the edges of \<open>es\<close> that leave it, in input order and with duplicates kept, and a node
  that is only a destination maps to the empty list.
\<close>

theorem buildGraph_adjacency:
  assumes "edges \<noteq> []" and "validateEdges edges = Inr ()"
  shows "\<exists>es g. edges = map rawEdge es \<and> buildGraph edges = Inr g \<and> distinct (map fst g) \<and>
      fst ` set g = from ` set es \<union> to ` set es \<and>
      (\<forall>k \<in> fst ` set g. map_of g k = Some (filter (\<lambda>e. from e = k) es)) \<and>
      (\<forall>k \<in> to ` set es - from ` set es. map_of g k = Some [])"
proof -
  define es where "es = List.map_filter asEdge edges"
  define g where "g = buildAdjacencyList es"
  have raw: "edges = map rawEdge es"
    using validated_typed [OF assms(2)] by (simp add: es_def)
  have built: "buildGraph edges = Inr g"
    using assms by (simp add: buildGraph_def g_def es_def)
  have "distinct (map fst g) \<and> fst ` set g = from ` set es \<union> to ` set es \<and>
      (\<forall>k. edgesOf g k = filter (\<lambda>e. from e = k) es)"
    unfolding g_def by (rule buildAdjacencyList_props)
  then have keys: "fst ` set g = from ` set es \<union> to ` set es"
    and lists: "\<And>k. edgesOf g k = filter (\<lambda>e. from e = k) es"
    and dist: "distinct (map fst g)"
    by (simp_all add: edgesOf_def)
  have get: "map_of g k = Some (filter (\<lambda>e. from e = k) es)" if "k \<in> fst ` set g" for k
  proof -
    from that obtain l where "map_of g k = Some l"
      by (metis graph_has_def graph_has_map_of not_Some_eq)
    with lists [of k] show ?thesis by (simp add: edgesOf_def)
  qed
  have dest: "map_of g k = Some []" if "k \<in> to ` set es - from ` set es" for k
  proof -
    from that keys have "k \<in> fst ` set g" by blast
    moreover have "filter (\<lambda>e. from e = k) es = []"
      using that by (force simp: filter_empty_conv)
    ultimately show ?thesis using get by simp
  qed
  from raw built dist keys get dest show ?thesis by blast
qed

theorem buildGraph_adjacency_witness:
  "\<exists>es g.
     [\<lparr>from = Val (Str ''A''), to = Val (Str ''B''), weight = Val (Num (Finite 4))\<rparr>,
      \<lparr>from = Val (Str ''A''), to = Val (Str ''B''), weight = Val (Num (Finite 4))\<rparr>,
      \<lparr>from = Val (Num (Finite 1)), to = Val (Str ''A''), weight = Val (Num (Finite 0))\<rparr>]
       = map rawEdge es \<and>
     buildGraph
       [\<lparr>from = Val (Str ''A''), to = Val (Str ''B''), weight = Val (Num (Finite 4))\<rparr>,
        \<lparr>from = Val (Str ''A''), to = Val (Str ''B''), weight = Val (Num (Finite 4))\<rparr>,
        \<lparr>from = Val (Num (Finite 1)), to = Val (Str ''A''), weight = Val (Num (Finite 0))\<rparr>]
       = Inr g \<and>
     distinct (map fst g) \<and>
     fst ` set g = from ` set es \<union> to ` set es \<and>
     (\<forall>k \<in> fst ` set g. map_of g k = Some (filter (\<lambda>e. from e = k) es)) \<and>
     (\<forall>k \<in> to ` set es - from ` set es. map_of g k = Some [])"
  using buildGraph_adjacency
    [of "[\<lparr>from = Val (Str ''A''), to = Val (Str ''B''), weight = Val (Num (Finite 4))\<rparr>,
          \<lparr>from = Val (Str ''A''), to = Val (Str ''B''), weight = Val (Num (Finite 4))\<rparr>,
          \<lparr>from = Val (Num (Finite 1)), to = Val (Str ''A''), weight = Val (Num (Finite 0))\<rparr>]"]
  by (simp add: isValidNode_def)

text \<open>
  C9: in a graph returned by \<open>buildGraph\<close>, every edge stored in the list of a key
  \<open>k\<close> has \<open>from = k\<close>.
\<close>

theorem buildGraph_lists_outgoing:
  assumes "buildGraph edges = Inr g" and "(k, es) \<in> set g" and "e \<in> set es"
  shows "from e = k"
proof -
  from assms(1) have g: "g = buildAdjacencyList (List.map_filter asEdge edges)"
    by (auto simp: buildGraph_def split: if_splits sum.splits)
  have f: "distinct (map fst g) \<and> fst ` set g =
        from ` set (List.map_filter asEdge edges) \<union> to ` set (List.map_filter asEdge edges) \<and>
      (\<forall>k. edgesOf g k = filter (\<lambda>e. from e = k) (List.map_filter asEdge edges))"
    unfolding g by (rule buildAdjacencyList_props)
  then have "map_of g k = Some es"
    using assms(2) by simp
  with f [THEN conjunct2, THEN conjunct2, THEN spec, of k]
  have "es = filter (\<lambda>e. from e = k) (List.map_filter asEdge edges)"
    by (simp add: edgesOf_def)
  with assms(3) show ?thesis by simp
qed

theorem buildGraph_lists_outgoing_witness:
  "buildGraph
     [\<lparr>from = Val (Str ''A''), to = Val (Str ''B''), weight = Val (Num (Finite 4))\<rparr>,
      \<lparr>from = Val (Str ''B''), to = Val (Str ''A''), weight = Val (Num (Finite 2))\<rparr>]
     = Inr [(Str ''A'', [\<lparr>from = Str ''A'', to = Str ''B'', weight = Finite 4\<rparr>]),
            (Str ''B'', [\<lparr>from = Str ''B'', to = Str ''A'', weight = Finite 2\<rparr>])] \<and>
   from \<lparr>from = Str ''B'', to = Str ''A'', weight = Finite 2\<rparr> = Str ''B''"
  using buildGraph_lists_outgoing
    [of "[\<lparr>from = Val (Str ''A''), to = Val (Str ''B''), weight = Val (Num (Finite 4))\<rparr>,
          \<lparr>from = Val (Str ''B''), to = Val (Str ''A''), weight = Val (Num (Finite 2))\<rparr>]"
        "[(Str ''A'', [\<lparr>from = Str ''A'', to = Str ''B'', weight = Finite 4\<rparr>]),
          (Str ''B'', [\<lparr>from = Str ''B'', to = Str ''A'', weight = Finite 2\<rparr>])]"
        "Str ''B''" "[\<lparr>from = Str ''B'', to = Str ''A'', weight = Finite 2\<rparr>]"
        "\<lparr>from = Str ''B'', to = Str ''A'', weight = Finite 2\<rparr>"]
  by (simp add: eval_build)

section \<open>Evaluation\<close>

lemmas eval_path = findPaths_def executeDijkstraInternal_def initDijkstra_def initKey_def initDestination_def
  dijkstraLoop.simps dijkstraStep_def relaxEdge_def enqueuePriorityQueue_def dequeuePriorityQueue_def
  isPriorityQueueEmpty_def createPriorityQueue_def js_sort_def js_sub_def strict_eq_def edgesOf_def
  reconstructPathInternal_def reconstructLoop.simps graph_has_def Let_def

lemmas eval_analyze = analyzeGraph_def extractAllNodes_def set_add_def calculateEdgeCount_def
  calculateDensity_def findConnectedComponents_def componentsStep_def exploreComponent_def
  exploreLoop.simps addAdjacentNodes_def addDirectAdjacentNodes_def addReverseAdjacentNodes_def
  strict_eq_def edgesOf_def Let_def

section \<open>Properties of the analyzer\<close>

lemma fold_edgeCount: "fold (\<lambda>edges n. n + length edges) xs k = k + sum_list (map length xs)"
  by (induction xs arbitrary: k) simp_all

lemma calculateEdgeCount_sum: "calculateEdgeCount g = sum_list (map (length \<circ> snd) g)"
  by (simp add: calculateEdgeCount_def fold_edgeCount)

lemma set_add_props: "set (set_add x xs) = insert x (set xs)" "distinct xs \<Longrightarrow> distinct (set_add x xs)"
  by (auto simp: set_add_def)

lemma fold_set_add:
  "set (fold (\<lambda>x acc. set_add (f x) acc) xs acc) = set acc \<union> f ` set xs \<and>
   (distinct acc \<longrightarrow> distinct (fold (\<lambda>x acc. set_add (f x) acc) xs acc))"
  by (induction xs arbitrary: acc) (auto simp: set_add_props)

lemma fold_set_add_id:
  "set (fold set_add xs acc) = set acc \<union> set xs \<and>
   (distinct acc \<longrightarrow> distinct (fold set_add xs acc))"
  by (induction xs arbitrary: acc) (auto simp: set_add_props)

lemma extractAllNodes_props:
  "set (extractAllNodes g) = graphNodes g" "distinct (extractAllNodes g)"
proof -
  let ?n = "fold set_add (map fst g) []"
  have 1: "set ?n = fst ` set g" "distinct ?n"
    using fold_set_add_id [of "map fst g" "[]"] by simp_all
  show "set (extractAllNodes g) = graphNodes g"
    using fold_set_add [of to "concat (map snd g)" ?n] 1
    by (simp add: extractAllNodes_def graphNodes_def)
  show "distinct (extractAllNodes g)"
    using fold_set_add [of to "concat (map snd g)" ?n] 1
    by (simp add: extractAllNodes_def)
qed

text \<open>
  C8: for a non-empty graph \<open>analyzeGraph\<close> succeeds; \<open>nodeCount\<close> is the number of
  nodes (keys and destinations), \<open>edgeCount\<close> the sum of the lengths of the adjacency
  lists, and \<open>density\<close> is 0 when \<open>nodeCount \<le> 1\<close> and
  \<open>edgeCount / (nodeCount * (nodeCount - 1))\<close> otherwise (division of exact reals).
  Nothing clamps it: two nodes with three parallel edges have density \<open>3/2\<close>.
\<close>

theorem analyzeGraph_density:
  assumes "graph \<noteq> []"
  shows "(\<exists>a. analyzeGraph graph = Inr a \<and>
      nodeCount a = card (graphNodes graph) \<and>
      edgeCount a = sum_list (map (length \<circ> snd) graph) \<and>
      density a = (if nodeCount a \<le> 1 then 0
                   else real (edgeCount a) / real (nodeCount a * (nodeCount a - 1)))) \<and>
    (\<exists>g a. analyzeGraph g = Inr a \<and> 1 < density a)"
proof -
  have n: "length (extractAllNodes graph) = card (graphNodes graph)"
    using extractAllNodes_props [of graph] distinct_card [of "extractAllNodes graph"] by simp
  have first: "\<exists>a. analyzeGraph graph = Inr a \<and>
      nodeCount a = card (graphNodes graph) \<and>
      edgeCount a = sum_list (map (length \<circ> snd) graph) \<and>
      density a = (if nodeCount a \<le> 1 then 0
                   else real (edgeCount a) / real (nodeCount a * (nodeCount a - 1)))"
    using assms
    by (simp add: analyzeGraph_def Let_def calculateDensity_def calculateEdgeCount_sum n)
  have "analyzeGraph
      [(Str ''A'', [\<lparr>from = Str ''A'', to = Str ''B'', weight = Finite 1\<rparr>,
                    \<lparr>from = Str ''A'', to = Str ''B'', weight = Finite 1\<rparr>,
                    \<lparr>from = Str ''A'', to = Str ''B'', weight = Finite 1\<rparr>]),
       (Str ''B'', [])]
    = Inr \<lparr>nodeCount = 2, edgeCount = 3, isConnected = True,
           components = [[Str ''A'', Str ''B'']], density = 3 / 2\<rparr>"
    by (simp add: eval_analyze)
  moreover have "1 < density \<lparr>nodeCount = 2, edgeCount = 3, isConnected = True,
           components = [[Str ''A'', Str ''B'']], density = 3 / 2\<rparr>"
    by simp
  ultimately have "\<exists>g a. analyzeGraph g = Inr a \<and> 1 < density a"
    by blast
  with first show ?thesis by blast
qed

theorem analyzeGraph_density_witness:
  "analyzeGraph [(Str ''X'', [\<lparr>from = Str ''X'', to = Str ''Y'', weight = Finite 5\<rparr>]), (Str ''Y'', [])]
     = Inr \<lparr>nodeCount = 2, edgeCount = 1, isConnected = True,
            components = [[Str ''X'', Str ''Y'']], density = 1 / 2\<rparr> \<and>
   (\<exists>a. analyzeGraph [(Str ''X'', [\<lparr>from = Str ''X'', to = Str ''Y'', weight = Finite 5\<rparr>]), (Str ''Y'', [])]
          = Inr a \<and>
      nodeCount a = card (graphNodes [(Str ''X'', [\<lparr>from = Str ''X'', to = Str ''Y'', weight = Finite 5\<rparr>]), (Str ''Y'', [])]) \<and>
      edgeCount a = sum_list (map (length \<circ> snd) [(Str ''X'', [\<lparr>from = Str ''X'', to = Str ''Y'', weight = Finite 5\<rparr>]), (Str ''Y'', [])]) \<and>
      density a = (if nodeCount a \<le> 1 then 0
                   else real (edgeCount a) / real (nodeCount a * (nodeCount a - 1))))"
proof -
  have "analyzeGraph [(Str ''X'', [\<lparr>from = Str ''X'', to = Str ''Y'', weight = Finite 5\<rparr>]), (Str ''Y'', [])]
     = Inr \<lparr>nodeCount = 2, edgeCount = 1, isConnected = True,
            components = [[Str ''X'', Str ''Y'']], density = 1 / 2\<rparr>"
    by (simp add: eval_analyze)
  moreover have "[(Str ''X'', [\<lparr>from = Str ''X'', to = Str ''Y'', weight = Finite 5\<rparr>]), (Str ''Y'', [])] \<noteq> []"
    by simp
  note analyzeGraph_density [OF this]
  ultimately show ?thesis by blast
qed

section \<open>Components\<close>

text \<open>
  For every graph the components of \<open>analyzeGraph\<close> partition the node set, their
  sizes add up to \<open>nodeCount\<close>, and \<open>isConnected\<close> says that there is exactly one.
\<close>

lemma exploreLoop_new:
  "exploreLoop g vis cmpt stack = (cmpt', vis') \<Longrightarrow>
   \<exists>new. cmpt' = cmpt @ new \<and> distinct new \<and> set new \<inter> vis = {} \<and> vis' = vis \<union> set new \<and>
         set new \<subseteq> set stack \<union> graphNodes g"
proof (induction g vis cmpt stack arbitrary: cmpt' vis' rule: exploreLoop.induct)
  case (1 graph vis component)
  then show ?case by (simp add: exploreLoop.simps)
next
  case (2 graph vis component current stack)
  show ?case
  proof (cases "current \<in> vis")
    case True
    with "2.prems" have "exploreLoop graph vis component stack = (cmpt', vis')"
      by (simp add: exploreLoop.simps)
    from "2.IH"(1) [OF True this] show ?thesis by auto
  next
    case False
    let ?stack = "addAdjacentNodes graph current (insert current vis) stack"
    from False "2.prems"
    have "exploreLoop graph (insert current vis) (component @ [current]) ?stack = (cmpt', vis')"
      by (simp add: exploreLoop.simps)
    from "2.IH"(2) [OF False this] obtain new where new:
      "cmpt' = (component @ [current]) @ new" "distinct new" "set new \<inter> insert current vis = {}"
      "vis' = insert current vis \<union> set new" "set new \<subseteq> set ?stack \<union> graphNodes graph"
      by blast
    have "set ?stack \<subseteq> set stack \<union> graphNodes graph" by (rule set_addAdjacent)
    with new False show ?thesis
      by (intro exI [of _ "current # new"]) auto
  qed
qed

lemma exploreComponent_new:
  assumes "exploreComponent g start vis = (cmpt, vis')" and "start \<notin> vis"
  shows "distinct cmpt \<and> set cmpt \<inter> vis = {} \<and> vis' = vis \<union> set cmpt \<and>
         set cmpt \<subseteq> insert start (graphNodes g) \<and> start \<in> set cmpt"
proof -
  from assms have "exploreLoop g (insert start vis) [start] (addAdjacentNodes g start (insert start vis) []) = (cmpt, vis')"
    by (simp add: exploreComponent_def exploreLoop.simps)
  from exploreLoop_new [OF this] obtain new where new:
    "cmpt = [start] @ new" "distinct new" "set new \<inter> insert start vis = {}"
    "vis' = insert start vis \<union> set new"
    "set new \<subseteq> set (addAdjacentNodes g start (insert start vis) []) \<union> graphNodes g"
    by blast
  have "set (addAdjacentNodes g start (insert start vis) []) \<subseteq> set [] \<union> graphNodes g"
    by (rule set_addAdjacent)
  with new assms(2) show ?thesis by auto
qed

lemma partInv_step:
  assumes "partInv g acc" and "start \<in> graphNodes g"
  shows "partInv g (componentsStep g start acc) \<and> start \<in> snd (componentsStep g start acc) \<and>
         snd acc \<subseteq> snd (componentsStep g start acc)"
proof -
  obtain comps vis where acc: "acc = (comps, vis)" by (cases acc)
  show ?thesis
  proof (cases "start \<in> vis")
    case True
    with assms show ?thesis by (simp add: acc componentsStep_def)
  next
    case False
    obtain cmpt vis' where ex: "exploreComponent g start vis = (cmpt, vis')"
      by (cases "exploreComponent g start vis")
    from exploreComponent_new [OF ex False] assms(2)
    have c: "distinct cmpt" "set cmpt \<inter> vis = {}" "vis' = vis \<union> set cmpt"
      "set cmpt \<subseteq> graphNodes g" "start \<in> set cmpt"
      by auto
    have step: "componentsStep g start acc = (comps @ [cmpt], vis')"
      using False ex by (simp add: acc componentsStep_def)
    from assms(1) c show ?thesis
      unfolding step by (auto simp: partInv_def acc)
  qed
qed

lemma partInv_fold:
  "partInv g acc \<Longrightarrow> set ns \<subseteq> graphNodes g \<Longrightarrow>
   partInv g (fold (componentsStep g) ns acc) \<and>
   set ns \<union> snd acc \<subseteq> snd (fold (componentsStep g) ns acc)"
proof (induction ns arbitrary: acc)
  case Nil
  then show ?case by simp
next
  case (Cons n ns)
  from partInv_step [OF Cons.prems(1), of n] Cons.prems(2)
  have s: "partInv g (componentsStep g n acc)" "n \<in> snd (componentsStep g n acc)"
    "snd acc \<subseteq> snd (componentsStep g n acc)"
    by auto
  from Cons.IH [OF s(1)] Cons.prems(2) s(2,3) show ?case by auto
qed

lemma findConnectedComponents_partition:
  "distinct (concat (findConnectedComponents g (extractAllNodes g))) \<and>
   \<Union> (set ` set (findConnectedComponents g (extractAllNodes g))) = graphNodes g \<and>
   [] \<notin> set (findConnectedComponents g (extractAllNodes g))"
proof -
  let ?r = "fold (componentsStep g) (extractAllNodes g) ([], {})"
  have "partInv g ([], {})" by (simp add: partInv_def)
  from partInv_fold [OF this, of "extractAllNodes g"]
  have "partInv g ?r" "graphNodes g \<subseteq> snd ?r"
    by (simp_all add: extractAllNodes_props)
  then show ?thesis
    unfolding findConnectedComponents_def partInv_def by (cases ?r) auto
qed

lemma analyzeGraph_partition:
  assumes "analyzeGraph g = Inr a"
  shows "distinct (concat (components a)) \<and> \<Union> (set ` set (components a)) = graphNodes g \<and>
         [] \<notin> set (components a) \<and>
         sum_list (map length (components a)) = nodeCount a \<and>
         (isConnected a \<longleftrightarrow> length (components a) = 1)"
proof -
  let ?cs = "findConnectedComponents g (extractAllNodes g)"
  from assms have ne: "g \<noteq> []" and a: "components a = ?cs"
    "nodeCount a = length (extractAllNodes g)" "isConnected a = (length ?cs \<le> 1)"
    by (auto simp: analyzeGraph_def Let_def split: if_splits)
  note p = findConnectedComponents_partition [of g]
  have "set (concat ?cs) = graphNodes g" using p by simp
  moreover have "card (set (concat ?cs)) = length (concat ?cs)"
    using p by (intro distinct_card) simp
  moreover have "card (graphNodes g) = length (extractAllNodes g)"
    using extractAllNodes_props [of g] distinct_card [of "extractAllNodes g"] by simp
  ultimately have sum: "sum_list (map length ?cs) = length (extractAllNodes g)"
    by (simp add: length_concat)
  from ne have "graphNodes g \<noteq> {}" by (cases g) (auto simp: graphNodes_def)
  with p have "?cs \<noteq> []" by auto
  then have "length ?cs \<le> 1 \<longleftrightarrow> length ?cs = 1" by (cases ?cs) auto
  with p sum a show ?thesis by simp
qed

text \<open>
  In a graph without the node NaN (keys distinct, as in every \<open>Map\<close>) each component
  is the class of undirected reachability of its nodes.
\<close>

lemma uadj_sym: "uadj g u v \<Longrightarrow> uadj g v u"
  by (auto simp: uadj_def)

lemma set_fold_push_eq:
  "set (fold (\<lambda>x stack. if P x then f x # stack else stack) xs stack)
     = set stack \<union> f ` {x \<in> set xs. P x}"
proof (induction xs arbitrary: stack)
  case Nil
  show ?case by simp
next
  case (Cons x xs)
  show ?case
    using Cons.IH [of "if P x then f x # stack else stack"] by (auto split: if_splits)
qed

lemma set_addDirect_eq:
  "set (addDirectAdjacentNodes g c vis stack)
     = set stack \<union> {v. (\<exists>e \<in> set (edgesOf g c). to e = v) \<and> v \<notin> vis}"
  unfolding addDirectAdjacentNodes_def
  using set_fold_push_eq [of "\<lambda>e. to e \<notin> vis" to "edgesOf g c" stack] by auto

lemma set_addReverse_eq:
  "set (addReverseAdjacentNodes g c vis stack)
     = set stack \<union> {n. (\<exists>es e. (n, es) \<in> set g \<and> e \<in> set es \<and> strict_eq (to e) c) \<and> n \<notin> vis}"
  unfolding addReverseAdjacentNodes_def
proof (induction g arbitrary: stack)
  case Nil
  show ?case by simp
next
  case (Cons a h)
  obtain node es where a: "a = (node, es)" by (cases a)
  let ?f = "\<lambda>(node, nodeEdges) stack.
      fold (\<lambda>edge stack. if strict_eq (to edge) c \<and> node \<notin> vis then node # stack else stack)
        nodeEdges stack"
  let ?s = "fold (\<lambda>edge stack. if strict_eq (to edge) c \<and> node \<notin> vis then node # stack else stack) es stack"
  let ?R = "\<lambda>h. {n. (\<exists>es e. (n, es) \<in> set h \<and> e \<in> set es \<and> strict_eq (to e) c) \<and> n \<notin> vis}"
  have s: "set ?s = set stack \<union> (\<lambda>e. node) ` {e \<in> set es. strict_eq (to e) c \<and> node \<notin> vis}"
    by (rule set_fold_push_eq)
  have "fold ?f (a # h) stack = fold ?f h ?s" by (simp add: a)
  then have "set (fold ?f (a # h) stack) = set ?s \<union> ?R h" using Cons.IH [of ?s] by simp
  also have "\<dots> = set stack \<union> ((\<lambda>e. node) ` {e \<in> set es. strict_eq (to e) c \<and> node \<notin> vis} \<union> ?R h)"
    unfolding s by blast
  also have "(\<lambda>e. node) ` {e \<in> set es. strict_eq (to e) c \<and> node \<notin> vis} \<union> ?R h = ?R (a # h)"
    unfolding a by fastforce
  finally show ?case .
qed

lemma set_addAdjacent_eq:
  assumes "distinct (map fst g)" and "Num NaN \<notin> graphNodes g"
  shows "set (addAdjacentNodes g c vis stack) = set stack \<union> {v. uadj g c v \<and> v \<notin> vis}"
proof -
  have rev: "(\<exists>es e. (n, es) \<in> set g \<and> e \<in> set es \<and> strict_eq (to e) c)
      \<longleftrightarrow> (\<exists>e \<in> set (edgesOf g n). to e = c)" for n
  proof
    assume "\<exists>es e. (n, es) \<in> set g \<and> e \<in> set es \<and> strict_eq (to e) c"
    then obtain es e where "(n, es) \<in> set g" "e \<in> set es" "strict_eq (to e) c" by blast
    moreover from this assms(1) have "map_of g n = Some es" by simp
    ultimately show "\<exists>e \<in> set (edgesOf g n). to e = c"
      by (auto simp: edgesOf_def strict_eq_def)
  next
    assume "\<exists>e \<in> set (edgesOf g n). to e = c"
    then obtain e where e: "e \<in> set (edgesOf g n)" "to e = c" by blast
    then obtain es where es: "map_of g n = Some es" "e \<in> set es"
      by (cases "map_of g n") (auto simp: edgesOf_def)
    from e edgesOf_nodes [of g n] assms(2) have "to e \<noteq> Num NaN" by auto
    moreover from es(1) have "(n, es) \<in> set g" by (rule map_of_SomeD)
    ultimately show "\<exists>es e. (n, es) \<in> set g \<and> e \<in> set es \<and> strict_eq (to e) c"
      using e es by (auto simp: strict_eq_def)
  qed
  have "set (addAdjacentNodes g c vis stack)
      = (set stack \<union> {v. (\<exists>e \<in> set (edgesOf g c). to e = v) \<and> v \<notin> vis})
        \<union> {n. (\<exists>e \<in> set (edgesOf g n). to e = c) \<and> n \<notin> vis}"
    unfolding addAdjacentNodes_def set_addReverse_eq set_addDirect_eq rev ..
  also have "\<dots> = set stack \<union> {v. uadj g c v \<and> v \<notin> vis}"
    unfolding uadj_def by blast
  finally show ?thesis .
qed

lemma exploreLoop_closed:
  "exploreLoop g vis cmpt stack = (cmpt', vis') \<Longrightarrow>
    distinct (map fst g) \<Longrightarrow> Num NaN \<notin> graphNodes g \<Longrightarrow>
    (\<forall>u \<in> vis - V0. \<forall>v. uadj g u v \<longrightarrow> v \<in> vis \<or> v \<in> set stack) \<Longrightarrow>
    (\<forall>u \<in> vis' - V0. \<forall>v. uadj g u v \<longrightarrow> v \<in> vis') \<and> set stack \<subseteq> vis' \<and> vis \<subseteq> vis'"
proof (induction g vis cmpt stack arbitrary: cmpt' vis' rule: exploreLoop.induct)
  case (1 graph vis component)
  then show ?case by (auto simp: exploreLoop.simps)
next
  case (2 graph vis component current stack)
  note dist = "2.prems"(2) and nan = "2.prems"(3) and front = "2.prems"(4)
  show ?case
  proof (cases "current \<in> vis")
    case True
    with "2.prems" have run: "exploreLoop graph vis component stack = (cmpt', vis')"
      by (simp add: exploreLoop.simps)
    have "\<forall>u \<in> vis - V0. \<forall>v. uadj graph u v \<longrightarrow> v \<in> vis \<or> v \<in> set stack"
      using front True by auto
    from "2.IH"(1) [OF True run dist nan this] True show ?thesis by auto
  next
    case False
    let ?vis = "insert current vis"
    let ?stack = "addAdjacentNodes graph current ?vis stack"
    from False "2.prems"
    have run: "exploreLoop graph ?vis (component @ [current]) ?stack = (cmpt', vis')"
      by (simp add: exploreLoop.simps)
    have st: "set ?stack = set stack \<union> {v. uadj graph current v \<and> v \<notin> ?vis}"
      using dist nan by (rule set_addAdjacent_eq)
    have "\<forall>u \<in> ?vis - V0. \<forall>v. uadj graph u v \<longrightarrow> v \<in> ?vis \<or> v \<in> set ?stack"
    proof (intro ballI allI impI)
      fix u v
      assume u: "u \<in> ?vis - V0" and uv: "uadj graph u v"
      show "v \<in> ?vis \<or> v \<in> set ?stack"
      proof (cases "u = current")
        case True
        with uv show ?thesis unfolding st by blast
      next
        case False
        with u have "u \<in> vis - V0" by simp
        with front uv have "v \<in> vis \<or> v \<in> set (current # stack)" by blast
        then show ?thesis unfolding st by auto
      qed
    qed
    from "2.IH"(2) [OF False run dist nan this]
    have "(\<forall>u\<in>vis' - V0. \<forall>v. uadj graph u v \<longrightarrow> v \<in> vis')" "set ?stack \<subseteq> vis'" "?vis \<subseteq> vis'"
      by simp_all
    then show ?thesis unfolding st by auto
  qed
qed

lemma exploreLoop_within:
  "exploreLoop g vis cmpt stack = (cmpt', vis') \<Longrightarrow>
    distinct (map fst g) \<Longrightarrow> Num NaN \<notin> graphNodes g \<Longrightarrow>
    set stack \<subseteq> C \<Longrightarrow> (\<forall>u \<in> C. \<forall>v. uadj g u v \<longrightarrow> v \<in> C) \<Longrightarrow> vis' \<subseteq> vis \<union> C"
proof (induction g vis cmpt stack arbitrary: cmpt' vis' rule: exploreLoop.induct)
  case (1 graph vis component)
  then show ?case by (auto simp: exploreLoop.simps)
next
  case (2 graph vis component current stack)
  note dist = "2.prems"(2) and nan = "2.prems"(3) and sub = "2.prems"(4) and closed = "2.prems"(5)
  show ?case
  proof (cases "current \<in> vis")
    case True
    with "2.prems" have run: "exploreLoop graph vis component stack = (cmpt', vis')"
      by (simp add: exploreLoop.simps)
    from sub have "set stack \<subseteq> C" by simp
    from "2.IH"(1) [OF True run dist nan this closed] show ?thesis .
  next
    case False
    let ?vis = "insert current vis"
    let ?stack = "addAdjacentNodes graph current ?vis stack"
    from False "2.prems"
    have run: "exploreLoop graph ?vis (component @ [current]) ?stack = (cmpt', vis')"
      by (simp add: exploreLoop.simps)
    have st: "set ?stack = set stack \<union> {v. uadj graph current v \<and> v \<notin> ?vis}"
      using dist nan by (rule set_addAdjacent_eq)
    from sub have cur: "current \<in> C" by simp
    have "set ?stack \<subseteq> C"
      unfolding st using sub closed cur by auto
    from "2.IH"(2) [OF False run dist nan this closed] cur show ?thesis by auto
  qed
qed

lemma connectedTo_closed: "u \<in> connectedTo g s \<Longrightarrow> uadj g u v \<Longrightarrow> v \<in> connectedTo g s"
  unfolding connectedTo_def by (auto intro: rtrancl_into_rtrancl)

lemma connectedTo_least:
  assumes "s \<in> A" and "\<forall>u \<in> A. \<forall>v. uadj g u v \<longrightarrow> v \<in> A"
  shows "connectedTo g s \<subseteq> A"
proof
  fix v
  assume "v \<in> connectedTo g s"
  then have "(s, v) \<in> {(a, b). uadj g a b}\<^sup>*" by (simp add: connectedTo_def)
  then show "v \<in> A"
    by (induction rule: rtrancl_induct) (use assms in auto)
qed

lemma exploreComponent_class:
  assumes run: "exploreComponent g start vis = (cmpt, vis')" and nv: "start \<notin> vis"
    and dist: "distinct (map fst g)" and nan: "Num NaN \<notin> graphNodes g"
    and closed: "\<forall>u \<in> vis. \<forall>v. uadj g u v \<longrightarrow> v \<in> vis"
  shows "set cmpt = connectedTo g start \<and> (\<forall>u \<in> vis'. \<forall>v. uadj g u v \<longrightarrow> v \<in> vis')"
proof -
  from exploreComponent_new [OF run nv]
  have c: "set cmpt \<inter> vis = {}" "vis' = vis \<union> set cmpt" "start \<in> set cmpt" by simp_all
  from run have loop: "exploreLoop g vis [] [start] = (cmpt, vis')"
    by (simp add: exploreComponent_def)
  have "start \<in> connectedTo g start" by (simp add: connectedTo_def)
  then have "set [start] \<subseteq> connectedTo g start" by simp
  from exploreLoop_within [OF loop dist nan this] connectedTo_closed [of _ g start]
  have "vis' \<subseteq> vis \<union> connectedTo g start" by blast
  with c have sub: "set cmpt \<subseteq> connectedTo g start" by auto
  have "\<forall>u \<in> vis - vis. \<forall>v. uadj g u v \<longrightarrow> v \<in> vis \<or> v \<in> set [start]" by simp
  from exploreLoop_closed [OF loop dist nan this]
  have post: "\<forall>u \<in> vis' - vis. \<forall>v. uadj g u v \<longrightarrow> v \<in> vis'" by simp
  have cl: "\<forall>u \<in> set cmpt. \<forall>v. uadj g u v \<longrightarrow> v \<in> set cmpt"
  proof (intro ballI allI impI)
    fix u v
    assume u: "u \<in> set cmpt" and uv: "uadj g u v"
    with c have "u \<in> vis' - vis" by auto
    with post uv have "v \<in> vis'" by blast
    moreover have "v \<notin> vis"
    proof
      assume "v \<in> vis"
      with closed uadj_sym [OF uv] have "u \<in> vis" by blast
      with u c show False by auto
    qed
    ultimately show "v \<in> set cmpt" using c by auto
  qed
  from connectedTo_least [OF c(3) cl] sub have "set cmpt = connectedTo g start" by auto
  moreover have "\<forall>u \<in> vis'. \<forall>v. uadj g u v \<longrightarrow> v \<in> vis'"
    using closed cl c by blast
  ultimately show ?thesis by simp
qed

lemma classInv_step:
  assumes "classInv g acc" and "distinct (map fst g)" and "Num NaN \<notin> graphNodes g"
  shows "classInv g (componentsStep g start acc)"
proof -
  obtain comps vis where acc: "acc = (comps, vis)" by (cases acc)
  show ?thesis
  proof (cases "start \<in> vis")
    case True
    with assms(1) show ?thesis by (simp add: acc componentsStep_def)
  next
    case False
    obtain cmpt vis' where ex: "exploreComponent g start vis = (cmpt, vis')"
      by (cases "exploreComponent g start vis")
    from assms(1) have "\<forall>u \<in> vis. \<forall>v. uadj g u v \<longrightarrow> v \<in> vis"
      by (simp add: classInv_def acc)
    from exploreComponent_class [OF ex False assms(2,3) this]
    have "set cmpt = connectedTo g start" "\<forall>u \<in> vis'. \<forall>v. uadj g u v \<longrightarrow> v \<in> vis'"
      by blast+
    moreover from exploreComponent_new [OF ex False] have "start \<in> set cmpt" by blast
    moreover have "componentsStep g start acc = (comps @ [cmpt], vis')"
      using False ex by (simp add: acc componentsStep_def)
    ultimately show ?thesis using assms(1) by (auto simp: classInv_def acc)
  qed
qed

lemma classInv_fold:
  "classInv g acc \<Longrightarrow> distinct (map fst g) \<Longrightarrow> Num NaN \<notin> graphNodes g \<Longrightarrow>
   classInv g (fold (componentsStep g) ns acc)"
  by (induction ns arbitrary: acc) (simp_all add: classInv_step)

lemma analyzeGraph_classes:
  assumes "analyzeGraph g = Inr a" and "distinct (map fst g)" and "Num NaN \<notin> graphNodes g"
  shows "\<forall>c \<in> set (components a). \<exists>u \<in> set c. set c = connectedTo g u"
proof -
  have "classInv g ([], {})" by (simp add: classInv_def)
  from classInv_fold [OF this assms(2,3), of "extractAllNodes g"]
  have "classInv g (fold (componentsStep g) (extractAllNodes g) ([], {}))" .
  moreover from assms(1) have "components a = findConnectedComponents g (extractAllNodes g)"
    by (auto simp: analyzeGraph_def Let_def split: if_splits)
  ultimately show ?thesis
    unfolding findConnectedComponents_def classInv_def
    by (cases "fold (componentsStep g) (extractAllNodes g) ([], {})") simp
qed

text \<open>
  C7 (the components partition the node set, each is a class of undirected
  reachability, and \<open>isConnected\<close> holds exactly when there is one component) fails on
  a graph with the node NaN. \<open>addReverseAdjacentNodes\<close> compares
  \<open>edge.to === current\<close>, which is false for NaN, while the \<open>visited\<close> set and the map
  treat NaN as one value: the edge from \<open>A\<close> to NaN is never followed backwards, and
  \<open>A\<close>, which that edge joins to NaN, ends in a component of its own. The partition
  and \<open>isConnected\<close> hold for every graph (\<open>analyzeGraph_partition\<close>), and the
  components are classes in every graph without NaN (\<open>analyzeGraph_classes\<close>).
\<close>

theorem analyzeGraph_NaN_components_split:
  "buildGraph
     [\<lparr>from = Val (Num NaN), to = Val (Str ''B''), weight = Val (Num (Finite 1))\<rparr>,
      \<lparr>from = Val (Str ''A''), to = Val (Num NaN), weight = Val (Num (Finite 1))\<rparr>]
   = Inr [(Num NaN, [\<lparr>from = Num NaN, to = Str ''B'', weight = Finite 1\<rparr>]),
     (Str ''B'', []), (Str ''A'', [\<lparr>from = Str ''A'', to = Num NaN, weight = Finite 1\<rparr>])] \<and>
  analyzeGraph [(Num NaN, [\<lparr>from = Num NaN, to = Str ''B'', weight = Finite 1\<rparr>]),
     (Str ''B'', []), (Str ''A'', [\<lparr>from = Str ''A'', to = Num NaN, weight = Finite 1\<rparr>])]
  = Inr \<lparr>nodeCount = 3, edgeCount = 2, isConnected = False,
        components = [[Num NaN, Str ''B''], [Str ''A'']], density = 1 / 3\<rparr> \<and>
  connects [(Num NaN, [\<lparr>from = Num NaN, to = Str ''B'', weight = Finite 1\<rparr>]),
     (Str ''B'', []), (Str ''A'', [\<lparr>from = Str ''A'', to = Num NaN, weight = Finite 1\<rparr>])]
     [Str ''A'', Num NaN] [\<lparr>from = Str ''A'', to = Num NaN, weight = Finite 1\<rparr>]"
  by (simp add: eval_build eval_analyze)

section \<open>Properties of the path engine\<close>

lemma js_less_PosInfinity [simp]: "js_less PosInfinity x = False"
  by (cases x) auto

lemma dijkstraStep_split:
  assumes "\<not> isPriorityQueueEmpty (queue st)"
  obtains (skip) rest where "dijkstraStep g st = st\<lparr>queue := \<lparr>items = rest\<rparr>\<rparr>"
      "set rest \<subseteq> set (items (queue st))"
  | (visit) c rest where "c \<in> queueNodes st" "\<not> falsy c" "c \<notin> visited st"
      "set rest \<subseteq> set (items (queue st))"
      "dijkstraStep g st =
         fold (relaxEdge c (case distances st c of Some d \<Rightarrow> d | None \<Rightarrow> PosInfinity))
           (edgesOf g c) (st\<lparr>queue := \<lparr>items = rest\<rparr>, visited := insert c (visited st)\<rparr>)"
proof -
  from assms obtain first rest where q: "items (queue st) = first # rest"
    by (cases "items (queue st)") (auto simp: isPriorityQueueEmpty_def)
  have r: "set rest \<subseteq> set (items (queue st))" by (auto simp: q)
  have c: "item first \<in> queueNodes st" by (simp add: queueNodes_def q)
  from dijkstraStep_cases [OF q, of g] skip [OF _ r] visit [OF c _ _ r]
  show thesis by blast
qed

lemma backPath_reconstructLoop:
  "backPath prev v p \<Longrightarrow> reconstructLoop prev (Some v) acc = Some (p @ acc)"
proof (induction arbitrary: acc rule: backPath.induct)
  case (root v)
  then show ?case by (simp add: reconstructLoop.simps)
next
  case (link v u p)
  have "reconstructLoop prev (Some v) acc = reconstructLoop prev (Some u) (v # acc)"
    using link.hyps(1) by (subst reconstructLoop.simps) simp
  then show ?case using link.IH [of "v # acc"] by simp
qed

lemma backPath_last: "backPath prev v p \<Longrightarrow> p \<noteq> [] \<and> last p = v"
  by (induction rule: backPath.induct) simp_all

lemma backPath_frame:
  "backPath prev u p \<Longrightarrow> v \<notin> set p \<Longrightarrow> backPath (prev(v \<mapsto> x)) u p"
proof (induction rule: backPath.induct)
  case (root w)
  then show ?case by (auto intro!: backPath.root)
next
  case (link w u p)
  then show ?case by (auto intro!: backPath.link)
qed

lemma chainsInv_path:
  assumes "chainsInv st"
  shows "\<exists>p. backPath (previous st) t p \<and> set p \<subseteq> insert t (visited st)"
proof (cases "t \<in> visited st")
  case True
  with assms obtain p where "backPath (previous st) t p" "set p \<subseteq> visited st"
    unfolding chainsInv_def by blast
  then show ?thesis by blast
next
  case False
  show ?thesis
  proof (cases "previous st t")
    case None
    then have "backPath (previous st) t [t]" by (intro backPath.root) simp
    then show ?thesis by (intro exI [of _ "[t]"]) simp
  next
    case (Some a)
    show ?thesis
    proof (cases a)
      case None
      with Some have "backPath (previous st) t [t]" by (intro backPath.root) simp
      then show ?thesis by (intro exI [of _ "[t]"]) simp
    next
      case (Some u)
      with \<open>previous st t = Some a\<close> have pt: "previous st t = Some (Some u)" by simp
      with False assms have "u \<in> visited st"
        by (auto simp: chainsInv_def)
      with assms obtain p where p: "backPath (previous st) u p" "set p \<subseteq> visited st"
        by (auto simp: chainsInv_def)
      from pt p(1) have "backPath (previous st) t (p @ [t])" by (rule backPath.link)
      with p(2) show ?thesis by (intro exI [of _ "p @ [t]"]) auto
    qed
  qed
qed

lemma chainsInv_visit:
  assumes "chainsInv st"
  shows "chainsInv (st\<lparr>queue := q, visited := insert c (visited st)\<rparr>)"
proof -
  have "\<exists>p. backPath (previous st) v p \<and> set p \<subseteq> insert c (visited st)"
    if "v \<in> insert c (visited st)" for v
    using chainsInv_path [OF assms, of v] that by auto
  moreover have "u \<in> insert c (visited st)"
    if "v \<notin> insert c (visited st)" "previous st v = Some (Some u)" for v u
    using assms that by (auto simp: chainsInv_def)
  ultimately show ?thesis by (simp add: chainsInv_def)
qed

lemma chainsInv_relaxEdge:
  assumes "chainsInv st" and "c \<in> visited st"
  shows "chainsInv (relaxEdge c d e st)"
proof (cases "relaxEdge c d e st = st")
  case True
  with assms show ?thesis by simp
next
  case False
  then have nv: "to e \<notin> visited st"
    and eq: "relaxEdge c d e st =
      st\<lparr>distances := (distances st)(to e \<mapsto> js_add d (weight e)),
         previous := (previous st)(to e \<mapsto> Some c),
         queue := enqueuePriorityQueue (queue st) (to e) (js_add d (weight e))\<rparr>"
    by (auto simp: relaxEdge_def Let_def split: if_splits)
  have "\<exists>p. backPath ((previous st)(to e \<mapsto> Some c)) v p \<and> set p \<subseteq> visited st"
    if "v \<in> visited st" for v
  proof -
    from assms(1) that obtain p where p: "backPath (previous st) v p" "set p \<subseteq> visited st"
      by (auto simp: chainsInv_def)
    with nv have "to e \<notin> set p" by auto
    from backPath_frame [OF p(1) this] p(2) show ?thesis by blast
  qed
  moreover have "u \<in> visited st"
    if "v \<notin> visited st" "((previous st)(to e \<mapsto> Some c)) v = Some (Some u)" for v u
    using assms that by (auto simp: chainsInv_def split: if_splits)
  ultimately show ?thesis by (simp add: eq chainsInv_def)
qed

lemma chainsInv_fold_relaxEdge:
  "chainsInv st \<Longrightarrow> c \<in> visited st \<Longrightarrow> chainsInv (fold (relaxEdge c d) es st)"
  by (induction es arbitrary: st) (simp_all add: chainsInv_relaxEdge visited_relaxEdge)

lemma chainsInv_queue: "chainsInv st \<Longrightarrow> chainsInv (st\<lparr>queue := q\<rparr>)"
  by (simp add: chainsInv_def)

lemma chainsInv_step:
  assumes "chainsInv st" and "\<not> isPriorityQueueEmpty (queue st)"
  shows "chainsInv (dijkstraStep g st)"
  using assms(2)
proof (cases rule: dijkstraStep_split [where g = g])
  case (skip rest)
  then show ?thesis using assms(1) by (simp add: chainsInv_queue)
next
  case (visit c rest)
  show ?thesis
    unfolding visit(5)
    by (rule chainsInv_fold_relaxEdge) (simp_all add: chainsInv_visit [OF assms(1)])
qed

lemma chainsInv_loop: "chainsInv st \<Longrightarrow> chainsInv (dijkstraLoop g st)"
proof (induction g st rule: dijkstraLoop.induct)
  case (1 graph st)
  show ?case
  proof (cases "isPriorityQueueEmpty (queue st)")
    case True
    then show ?thesis using "1.prems" by (simp add: dijkstraLoop.simps)
  next
    case False
    from "1.IH" [OF False chainsInv_step [OF "1.prems" False]]
    show ?thesis using False by (subst dijkstraLoop.simps) simp
  qed
qed

lemma visited_fold_initKey: "visited (fold (initKey s) ks st) = visited st"
  by (induction ks arbitrary: st) (simp_all add: initKey_def)

lemma visited_fold_initDestination: "visited (fold initDestination es st) = visited st"
  by (induction es arbitrary: st) (simp_all add: initDestination_def)

lemma visited_initDijkstra: "visited (initDijkstra g s) = {}"
  by (simp add: initDijkstra_def Let_def visited_fold_initKey visited_fold_initDestination)

lemma previous_fold_initKey:
  "previous (fold (initKey s) ks st) v = (if v \<in> set ks then Some None else previous st v)"
  by (induction ks arbitrary: st) (auto simp: initKey_def)

lemma previous_fold_initDestination:
  "previous st v \<noteq> Some (Some u) \<Longrightarrow> previous (fold initDestination es st) v \<noteq> Some (Some u)"
  by (induction es arbitrary: st) (auto simp: initDestination_def)

lemma previous_initDijkstra: "previous (initDijkstra g s) v \<noteq> Some (Some u)"
  unfolding initDijkstra_def Let_def
  by (simp add: previous_fold_initDestination previous_fold_initKey)

lemma chainsInv_init: "chainsInv (initDijkstra g s)"
  by (simp add: chainsInv_def visited_initDijkstra previous_initDijkstra)

lemma backPath_unique: "backPath prev v p \<Longrightarrow> backPath prev v q \<Longrightarrow> p = q"
proof (induction arbitrary: q rule: backPath.induct)
  case (root v)
  from root.prems root.hyps show ?case by (cases rule: backPath.cases) auto
next
  case (link v u p)
  from link.prems link.hyps(1) link.IH show ?case by (cases rule: backPath.cases) auto
qed

lemma backPath_prefix:
  "backPath prev v p \<Longrightarrow> w \<in> set p \<Longrightarrow> \<exists>q r. p = q @ r \<and> backPath prev w q"
proof (induction rule: backPath.induct)
  case (root v)
  then have "w = v" by simp
  moreover have "backPath prev v [v]" using root.hyps by (rule backPath.root)
  ultimately show ?case by (intro exI [of _ "[v]"] exI [of _ "[]"]) simp
next
  case (link v u p)
  show ?case
  proof (cases "w \<in> set p")
    case True
    with link.IH obtain q r where "p = q @ r" "backPath prev w q" by blast
    then show ?thesis by (intro exI [of _ q] exI [of _ "r @ [v]"]) simp
  next
    case False
    with link.prems have "w = v" by simp
    with backPath.link [OF link.hyps] show ?thesis
      by (intro exI [of _ "p @ [v]"] exI [of _ "[]"]) simp
  qed
qed

lemma backPath_distinct: "backPath prev v p \<Longrightarrow> distinct p"
proof (induction rule: backPath.induct)
  case (root v)
  show ?case by simp
next
  case (link v u p)
  have "v \<notin> set p"
  proof
    assume "v \<in> set p"
    from backPath_prefix [OF link.hyps(2) this] obtain q r
      where qr: "p = q @ r" "backPath prev v q" by blast
    from backPath_unique [OF qr(2) backPath.link [OF link.hyps]] have "q = p @ [v]" .
    with qr(1) show False by simp
  qed
  with link.IH show ?case by simp
qed

lemma connects_snoc:
  "connects g p es \<Longrightarrow> e \<in> set (edgesOf g (last p)) \<Longrightarrow> to e = v \<Longrightarrow>
   connects g (p @ [v]) (es @ [e])"
  by (induction g p es rule: connects.induct) auto

lemma pathWeight_snoc: "pathWeight (es @ [e]) = js_add (pathWeight es) (weight e)"
  by (simp add: pathWeight_def)

lemma cert_props:
  "cert g s prev dm v p es \<Longrightarrow>
   backPath prev v p \<and> p \<noteq> [] \<and> hd p = s \<and> last p = v \<and> connects g p es \<and>
   dm v = Some (pathWeight es)"
proof (induction rule: cert.induct)
  case croot
  then show ?case by (simp add: backPath.root pathWeight_def)
next
  case (clink v u p es e du)
  then show ?case
    by (auto intro: backPath.link simp: connects_snoc pathWeight_snoc)
qed

lemma cert_frame:
  "cert g s prev dm x p es \<Longrightarrow> v \<notin> set p \<Longrightarrow> cert g s (prev(v \<mapsto> a)) (dm(v \<mapsto> b)) x p es"
proof (induction rule: cert.induct)
  case croot
  then show ?case by (auto intro!: cert.croot)
next
  case (clink w u p es e du)
  from clink.hyps(2) have "last p = u" "p \<noteq> []" by (simp_all add: cert_props)
  then have "u \<in> set p" using last_in_set by metis
  with clink.prems have "v \<noteq> u" "v \<noteq> w" "v \<notin> set p" by auto
  with clink show ?case by (auto intro!: cert.clink)
qed

lemma certInv_cert:
  assumes "certInv g s st" and "distances st t = Some d" and "d \<noteq> PosInfinity"
  shows "\<exists>p es. cert g s (previous st) (distances st) t p es \<and> set p \<subseteq> insert t (visited st)"
proof (cases "t \<in> visited st")
  case True
  with assms(1) obtain p es where "cert g s (previous st) (distances st) t p es" "set p \<subseteq> visited st"
    unfolding certInv_def by blast
  then show ?thesis by blast
next
  case False
  with assms have "(t = s \<and> previous st s = Some None \<and> d = Finite 0) \<or>
        (\<exists>u e du. u \<in> visited st \<and> previous st t = Some (Some u) \<and> e \<in> set (edgesOf g u) \<and>
           to e = t \<and> distances st u = Some du \<and> d = js_add du (weight e))"
    unfolding certInv_def by blast
  then show ?thesis
  proof (elim disjE conjE exE)
    assume "t = s" "previous st s = Some None" "d = Finite 0"
    with assms(2) have "cert g s (previous st) (distances st) t [t] []"
      by (auto intro: cert.croot)
    then show ?thesis by (intro exI [of _ "[t]"] exI [of _ "[]"]) simp
  next
    fix u e du
    assume u: "u \<in> visited st" "previous st t = Some (Some u)" "e \<in> set (edgesOf g u)"
      "to e = t" "distances st u = Some du" "d = js_add du (weight e)"
    with assms(1) obtain p es where p: "cert g s (previous st) (distances st) u p es" "set p \<subseteq> visited st"
      unfolding certInv_def by blast
    from cert.clink [OF u(2) p(1) u(3) u(4) u(5)] assms(2) u(6)
    have "cert g s (previous st) (distances st) t (p @ [t]) (es @ [e])" by simp
    with p(2) show ?thesis by (intro exI [of _ "p @ [t]"] exI [of _ "es @ [e]"]) auto
  qed
qed
lemma certInv_visit:
  assumes inv: "certInv g s st" and c: "c \<in> queueNodes st" "\<not> falsy c" "c \<notin> visited st"
    and rest: "set rest \<subseteq> set (items (queue st))"
  shows "certInv g s (st\<lparr>queue := \<lparr>items = rest\<rparr>, visited := insert c (visited st)\<rparr>)"
proof -
  let ?st = "st\<lparr>queue := \<lparr>items = rest\<rparr>, visited := insert c (visited st)\<rparr>"
  from inv c obtain d where d: "distances st c = Some d" "d \<noteq> PosInfinity"
    unfolding certInv_def by blast
  have 1: "\<exists>p es. cert g s (previous st) (distances st) v p es \<and> set p \<subseteq> insert c (visited st)"
    if "v \<in> insert c (visited st)" for v
  proof (cases "v = c")
    case True
    with certInv_cert [OF inv d] show ?thesis by simp
  next
    case False
    with that have "v \<in> visited st" by simp
    with inv obtain p es where "cert g s (previous st) (distances st) v p es" "set p \<subseteq> visited st"
      unfolding certInv_def by blast
    then show ?thesis by blast
  qed
  have 2: "(v = s \<and> previous st s = Some None \<and> d' = Finite 0) \<or>
        (\<exists>u e du. u \<in> insert c (visited st) \<and> previous st v = Some (Some u) \<and> e \<in> set (edgesOf g u) \<and>
           to e = v \<and> distances st u = Some du \<and> d' = js_add du (weight e))"
    if "v \<notin> insert c (visited st)" "distances st v = Some d'" "d' \<noteq> PosInfinity" for v d'
  proof -
    from that inv have "(v = s \<and> previous st s = Some None \<and> d' = Finite 0) \<or>
        (\<exists>u e du. u \<in> visited st \<and> previous st v = Some (Some u) \<and> e \<in> set (edgesOf g u) \<and>
           to e = v \<and> distances st u = Some du \<and> d' = js_add du (weight e))"
      unfolding certInv_def by simp
    then show ?thesis by blast
  qed
  have 3: "x \<in> insert c (visited st) \<or> falsy x \<or> (\<exists>d. distances st x = Some d \<and> d \<noteq> PosInfinity)"
    if "x \<in> item ` set rest" for x
  proof -
    from that rest have "x \<in> queueNodes st" by (auto simp: queueNodes_def)
    with inv show ?thesis unfolding certInv_def by blast
  qed
  show ?thesis
    unfolding certInv_def using 1 2 3 by (simp add: queueNodes_def)
qed

lemma certInv_relaxEdge:
  assumes inv: "certInv g s st" and c: "c \<in> visited st"
    and d: "d = (case distances st c of Some x \<Rightarrow> x | None \<Rightarrow> PosInfinity)"
    and e: "e \<in> set (edgesOf g c)"
  shows "certInv g s (relaxEdge c d e st)"
proof (cases "relaxEdge c d e st = st")
  case True
  with inv show ?thesis by simp
next
  case False
  let ?v = "to e"
  let ?n = "js_add d (weight e)"
  let ?dm = "(distances st)(?v \<mapsto> ?n)"
  let ?pm = "(previous st)(?v \<mapsto> Some c)"
  from False have nv: "?v \<notin> visited st"
    and less: "js_less ?n (case distances st ?v of Some x \<Rightarrow> x | None \<Rightarrow> PosInfinity)"
    and eq: "relaxEdge c d e st =
      st\<lparr>distances := ?dm, previous := ?pm, queue := enqueuePriorityQueue (queue st) ?v ?n\<rparr>"
    by (auto simp: relaxEdge_def Let_def split: if_splits)
  from less have fin: "?n \<noteq> PosInfinity" by auto
  from inv c obtain pc ec where pc: "cert g s (previous st) (distances st) c pc ec"
    unfolding certInv_def by blast
  then have dc: "distances st c = Some d" using d by (auto dest: cert_props)
  from c nv have cv: "c \<noteq> ?v" by auto
  have 1: "\<exists>p es. cert g s ?pm ?dm x p es \<and> set p \<subseteq> visited st" if "x \<in> visited st" for x
  proof -
    from inv that obtain p es where p: "cert g s (previous st) (distances st) x p es" "set p \<subseteq> visited st"
      unfolding certInv_def by blast
    with nv have "?v \<notin> set p" by auto
    from cert_frame [OF p(1) this] p(2) show ?thesis by blast
  qed
  have 2: "(x = s \<and> ?pm s = Some None \<and> d' = Finite 0) \<or>
        (\<exists>u e' du. u \<in> visited st \<and> ?pm x = Some (Some u) \<and> e' \<in> set (edgesOf g u) \<and>
           to e' = x \<and> ?dm u = Some du \<and> d' = js_add du (weight e'))"
    if "x \<notin> visited st" "?dm x = Some d'" "d' \<noteq> PosInfinity" for x d'
  proof (cases "x = ?v")
    case True
    with that have "d' = ?n" by simp
    with True c e dc cv have "c \<in> visited st \<and> ?pm x = Some (Some c) \<and> e \<in> set (edgesOf g c) \<and>
           to e = x \<and> ?dm c = Some d \<and> d' = js_add d (weight e)"
      by simp
    then show ?thesis by blast
  next
    case False
    with that have "distances st x = Some d'" by simp
    with inv that have "(x = s \<and> previous st s = Some None \<and> d' = Finite 0) \<or>
        (\<exists>u e' du. u \<in> visited st \<and> previous st x = Some (Some u) \<and> e' \<in> set (edgesOf g u) \<and>
           to e' = x \<and> distances st u = Some du \<and> d' = js_add du (weight e'))"
      unfolding certInv_def by simp
    then show ?thesis
    proof (elim disjE conjE exE)
      assume "x = s" "previous st s = Some None" "d' = Finite 0"
      with False show ?thesis by simp
    next
      fix u e' du
      assume u: "u \<in> visited st" "previous st x = Some (Some u)" "e' \<in> set (edgesOf g u)"
        "to e' = x" "distances st u = Some du" "d' = js_add du (weight e')"
      with nv have "u \<noteq> ?v" by auto
      with u False have "u \<in> visited st \<and> ?pm x = Some (Some u) \<and> e' \<in> set (edgesOf g u) \<and>
           to e' = x \<and> ?dm u = Some du \<and> d' = js_add du (weight e')"
        by simp
      then show ?thesis by blast
    qed
  qed
  have 3: "x \<in> visited st \<or> falsy x \<or> (\<exists>d. ?dm x = Some d \<and> d \<noteq> PosInfinity)"
    if "x \<in> insert ?v (queueNodes st)" for x
  proof (cases "x = ?v")
    case True
    with fin show ?thesis by simp
  next
    case False
    with that have "x \<in> queueNodes st" by simp
    with inv have "x \<in> visited st \<or> falsy x \<or> (\<exists>d. distances st x = Some d \<and> d \<noteq> PosInfinity)"
      unfolding certInv_def by blast
    with False show ?thesis by simp
  qed
  have q: "queueNodes (relaxEdge c d e st) = insert ?v (queueNodes st)"
    by (simp add: eq queueNodes_def items_enqueue)
  show ?thesis
    unfolding certInv_def q
    using 1 2 3 by (simp add: eq)
qed

lemma distances_relaxEdge_visited:
  "c \<in> visited st \<Longrightarrow> distances (relaxEdge c' d e st) c = distances st c"
  by (auto simp: relaxEdge_def Let_def)

lemma certInv_fold_relaxEdge:
  "certInv g s st \<Longrightarrow> c \<in> visited st \<Longrightarrow>
   d = (case distances st c of Some x \<Rightarrow> x | None \<Rightarrow> PosInfinity) \<Longrightarrow>
   set es \<subseteq> set (edgesOf g c) \<Longrightarrow> certInv g s (fold (relaxEdge c d) es st)"
proof (induction es arbitrary: st)
  case Nil
  then show ?case by simp
next
  case (Cons e es)
  have "certInv g s (relaxEdge c d e st)"
    using Cons.prems by (intro certInv_relaxEdge) auto
  moreover have "c \<in> visited (relaxEdge c d e st)"
    using Cons.prems by (simp add: visited_relaxEdge)
  moreover have "d = (case distances (relaxEdge c d e st) c of Some x \<Rightarrow> x | None \<Rightarrow> PosInfinity)"
    using Cons.prems by (simp add: distances_relaxEdge_visited)
  ultimately show ?case using Cons.IH [of "relaxEdge c d e st"] Cons.prems by simp
qed

lemma certInv_skip:
  assumes "certInv g s st" and "set rest \<subseteq> set (items (queue st))"
  shows "certInv g s (st\<lparr>queue := \<lparr>items = rest\<rparr>\<rparr>)"
proof -
  have "queueNodes (st\<lparr>queue := \<lparr>items = rest\<rparr>\<rparr>) \<subseteq> queueNodes st"
    using assms(2) by (auto simp: queueNodes_def)
  with assms(1) show ?thesis unfolding certInv_def by (simp add: subset_iff)
qed

lemma certInv_step:
  assumes "certInv g s st" and "\<not> isPriorityQueueEmpty (queue st)"
  shows "certInv g s (dijkstraStep g st)"
  using assms(2)
proof (cases rule: dijkstraStep_split [where g = g])
  case (skip rest)
  with certInv_skip [OF assms(1) skip(2)] show ?thesis by simp
next
  case (visit c rest)
  show ?thesis
    unfolding visit(5)
    by (rule certInv_fold_relaxEdge [OF certInv_visit [OF assms(1) visit(1,2,3,4)]]) simp_all
qed

lemma certInv_loop: "certInv g s st \<Longrightarrow> certInv g s (dijkstraLoop g st)"
proof (induction g st rule: dijkstraLoop.induct)
  case (1 graph st)
  show ?case
  proof (cases "isPriorityQueueEmpty (queue st)")
    case True
    then show ?thesis using "1.prems" by (simp add: dijkstraLoop.simps)
  next
    case False
    from "1.IH" [OF False certInv_step [OF "1.prems" False]]
    show ?thesis using False by (subst dijkstraLoop.simps) simp
  qed
qed
lemma distances_fold_initKey:
  "distances (fold (initKey s) ks st) v =
     (if v \<in> set ks then Some (if strict_eq v s then Finite 0 else PosInfinity) else distances st v)"
  by (induction ks arbitrary: st) (auto simp: initKey_def)

lemma initDestination_keep:
  "distances st v = Some d \<Longrightarrow>
   distances (initDestination e st) v = Some d \<and>
   previous (initDestination e st) v = previous st v"
  by (auto simp: initDestination_def)

lemma fold_initDestination_keep:
  "distances st v = Some d \<Longrightarrow>
   distances (fold initDestination es st) v = Some d \<and>
   previous (fold initDestination es st) v = previous st v"
proof (induction es arbitrary: st)
  case Nil
  then show ?case by simp
next
  case (Cons e es)
  from initDestination_keep [OF Cons.prems, of e] Cons.IH [of "initDestination e st"]
  show ?case by simp
qed

lemma fold_initDestination_new:
  "distances st v = None \<Longrightarrow>
   distances (fold initDestination es st) v = None \<or>
   distances (fold initDestination es st) v = Some PosInfinity"
proof (induction es arbitrary: st)
  case Nil
  then show ?case by simp
next
  case (Cons e es)
  show ?case
  proof (cases "distances (initDestination e st) v")
    case None
    with Cons.IH [of "initDestination e st"] show ?thesis by simp
  next
    case (Some d)
    with Cons.prems have "d = PosInfinity" by (auto simp: initDestination_def split: if_splits)
    with Some fold_initDestination_keep [of "initDestination e st" v d es] show ?thesis by simp
  qed
qed

lemma queueNodes_initDijkstra: "queueNodes (initDijkstra g s) = {s}"
  by (simp add: initDijkstra_def Let_def queueNodes_def items_enqueue createPriorityQueue_def)

lemma initDijkstra_finite:
  assumes "distances (initDijkstra g s) v = Some d" and "d \<noteq> PosInfinity"
  shows "v = s \<and> d = Finite 0 \<and> previous (initDijkstra g s) s = Some None"
proof -
  let ?st0 = "\<lparr>distances = Map.empty, previous = Map.empty, visited = {}, queue = createPriorityQueue\<rparr>"
  let ?st1 = "fold (initKey s) (map fst g) ?st0"
  let ?st2 = "fold initDestination (concat (map snd g)) ?st1"
  have d2: "distances ?st2 v = Some d"
    using assms(1) by (simp add: initDijkstra_def Let_def)
  have key: "v \<in> set (map fst g)"
  proof (rule ccontr)
    assume "v \<notin> set (map fst g)"
    then have "distances ?st1 v = None" by (simp add: distances_fold_initKey)
    from fold_initDestination_new [OF this, of "concat (map snd g)"] d2 assms(2)
    show False by auto
  qed
  then have d1: "distances ?st1 v = Some (if strict_eq v s then Finite 0 else PosInfinity)"
    by (simp add: distances_fold_initKey)
  from fold_initDestination_keep [OF d1, of "concat (map snd g)"] d2 assms(2)
  have vs: "strict_eq v s" and d0: "d = Finite 0" and
    p: "previous ?st2 v = previous ?st1 v"
    by (auto split: if_splits)
  from key have "previous ?st1 v = Some None" by (simp add: previous_fold_initKey)
  with p vs d0 show ?thesis by (simp add: initDijkstra_def Let_def strict_eq_def)
qed

lemma initDijkstra_start:
  assumes "graph_has g s"
  shows "falsy s \<or> (\<exists>d. distances (initDijkstra g s) s = Some d \<and> d \<noteq> PosInfinity)"
proof (cases "s = Num NaN")
  case True
  then show ?thesis by simp
next
  case False
  let ?st0 = "\<lparr>distances = Map.empty, previous = Map.empty, visited = {}, queue = createPriorityQueue\<rparr>"
  let ?st1 = "fold (initKey s) (map fst g) ?st0"
  from assms False have "distances ?st1 s = Some (Finite 0)"
    by (simp add: distances_fold_initKey graph_has_def strict_eq_def)
  from fold_initDestination_keep [OF this, of "concat (map snd g)"]
  show ?thesis by (simp add: initDijkstra_def Let_def)
qed

lemma certInv_init:
  assumes "graph_has g s"
  shows "certInv g s (initDijkstra g s)"
  unfolding certInv_def
  using initDijkstra_finite [of g s] initDijkstra_start [OF assms]
  by (simp add: visited_initDijkstra queueNodes_initDijkstra)

lemma certInv_execute:
  "graph_has g s \<Longrightarrow> certInv g s (executeDijkstraInternal g s)"
  unfolding executeDijkstraInternal_def by (intro certInv_loop certInv_init)

lemma isValidWeight_Finite: "isValidWeight (Val (Num w)) \<longleftrightarrow> (\<exists>r\<ge>0. w = Finite r)"
  by (cases w) (auto simp: isValidWeight_def)

lemma edgesOf_subset: "set (edgesOf g u) \<subseteq> set (concat (map snd g))"
proof (cases "map_of g u")
  case None
  then show ?thesis by (simp add: edgesOf_def)
next
  case (Some es)
  then have "(u, es) \<in> set g" by (rule map_of_SomeD)
  then show ?thesis using Some by (force simp: edgesOf_def)
qed

lemma connects_edges: "connects g p es \<Longrightarrow> set es \<subseteq> set (concat (map snd g))"
proof (induction g p es rule: connects.induct)
  case (2 g u v p e es)
  then show ?case using edgesOf_subset [of g u] by auto
qed simp_all

lemma pathWeight_nonneg:
  "\<forall>e \<in> set es. \<exists>r\<ge>0. weight e = Finite r \<Longrightarrow> \<exists>r\<ge>0. pathWeight es = Finite r"
proof (induction es rule: rev_induct)
  case Nil
  show ?case by (simp add: pathWeight_def)
next
  case (snoc e es)
  then obtain r w where "r \<ge> 0" "pathWeight es = Finite r" "w \<ge> 0" "weight e = Finite w"
    by auto
  then show ?case by (simp add: pathWeight_snoc)
qed

lemma connects_length: "connects g p es \<Longrightarrow> length p = Suc (length es)"
  by (induction g p es rule: connects.induct) simp_all

text \<open>Every graph that \<open>buildGraph\<close> returns stores valid weights only.\<close>

lemma graph_edges_edgesOf:
  assumes "distinct (map fst g)" and "e \<in> set (concat (map snd g))"
  shows "\<exists>k. e \<in> set (edgesOf g k)"
proof -
  from assms(2) obtain k l where kl: "(k, l) \<in> set g" "e \<in> set l" by auto
  with assms(1) have "map_of g k = Some l" by simp
  with kl(2) have "e \<in> set (edgesOf g k)" by (simp add: edgesOf_def)
  then show ?thesis ..
qed

lemma buildGraph_validWeights:
  assumes "buildGraph edges = Inr g"
  shows "validWeights g"
proof -
  let ?es = "List.map_filter asEdge edges"
  from assms have ne: "edges \<noteq> []" by (auto simp: buildGraph_def)
  from assms ne obtain u where "validateEdges edges = Inr u"
    by (cases "validateEdges edges") (simp_all add: buildGraph_def)
  then have ok: "validateEdges edges = Inr ()" by simp
  from assms ne ok have g: "g = buildAdjacencyList ?es"
    by (simp add: buildGraph_def)
  have raw: "map rawEdge ?es = edges" using ok by (rule validated_typed)
  note props = buildAdjacencyList_props [of ?es]
  have "isValidWeight (Val (Num (weight e)))" if "e \<in> set (concat (map snd g))" for e
  proof -
    from props have "distinct (map fst g)" unfolding g by blast
    from graph_edges_edgesOf [OF this that] obtain k where "e \<in> set (edgesOf g k)" ..
    moreover from props have "edgesOf g k = filter (\<lambda>e. from e = k) ?es" unfolding g by blast
    ultimately have "e \<in> set ?es" by simp
    then have "rawEdge e \<in> set (map rawEdge ?es)" by simp
    with raw have "rawEdge e \<in> set edges" by simp
    with ok have "isValidWeight (weight (rawEdge e))" by (simp add: validateEdges_ok_iff)
    then show ?thesis by (simp add: rawEdge_def)
  qed
  then show ?thesis by (simp add: validWeights_def)
qed

text \<open>
  C3, as the claim states it, promises a non-negative distance whenever \<open>findPaths\<close>
  succeeds. That fails on a graph that was not built by \<open>buildGraph\<close>: the path
  engine does not look at the sign of a weight (the validator does, before a graph is
  built), so with an edge of weight \<open>-1\<close> from \<open>A\<close> to \<open>B\<close> it returns the distance
  \<open>-1\<close>.
\<close>

theorem findPaths_negative_weight_counterexample:
  "findPaths [(Str ''A'', [\<lparr>from = Str ''A'', to = Str ''B'', weight = Finite (- 1)\<rparr>]), (Str ''B'', [])]
     (Str ''A'') (Str ''B'')
     = Some (Inr \<lparr>path = [Str ''A'', Str ''B''], distance = Finite (- 1)\<rparr>) \<and>
   js_less (Finite (- 1)) (Finite 0)"
  by (simp add: eval_path)

text \<open>
  C3, amended: whenever \<open>findPaths\<close> succeeds, the path has at least one node, starts
  with the source and ends with the target; there are edges \<open>es\<close>, each from the
  adjacency list of the node it leaves to the next node of the path, whose weights add
  up (from the source on) to the returned distance; and if every weight stored in the
  graph is valid (finite and not negative, as in every graph that \<open>buildGraph\<close>
  returns, \<open>buildGraph_validWeights\<close>) the distance is a finite number \<open>\<ge> 0\<close>.
\<close>

theorem findPaths_success_path:
  assumes "findPaths graph s t = Some (Inr sp)"
  shows "length (path sp) \<ge> 1 \<and> hd (path sp) = s \<and> last (path sp) = t \<and>
         (\<exists>es. connects graph (path sp) es \<and> distance sp = pathWeight es) \<and>
         (validWeights graph \<longrightarrow> (\<exists>r\<ge>0. distance sp = Finite r))"
proof -
  let ?st = "executeDijkstraInternal graph s"
  from assms have has: "graph_has graph s"
    by (auto simp: findPaths_def split: if_splits)
  from assms have rec: "reconstructPathInternal (previous ?st) (distances ?st) t = Some (Inr sp)"
    by (auto simp: findPaths_def Let_def
        split: if_splits option.splits sum.splits PathError.splits)
  then obtain d where d: "distances ?st t = Some d" "d \<noteq> PosInfinity"
    and loop: "reconstructLoop (previous ?st) (Some t) [] = Some (path sp)"
    and dist: "distance sp = d"
    by (auto simp: reconstructPathInternal_def split: option.splits if_splits)
  from certInv_cert [OF certInv_execute [OF has] d]
  obtain p es where "cert graph s (previous ?st) (distances ?st) t p es" by blast
  from cert_props [OF this]
  have bp: "backPath (previous ?st) t p" and p: "p \<noteq> []" "hd p = s" "last p = t"
    and con: "connects graph p es" and w: "distances ?st t = Some (pathWeight es)"
    by simp_all
  from backPath_reconstructLoop [OF bp, of "[]"] loop have path: "path sp = p" by simp
  from w d dist have dw: "distance sp = pathWeight es" by simp
  have nonneg: "\<exists>r\<ge>0. distance sp = Finite r" if "validWeights graph"
  proof -
    from that connects_edges [OF con] have "\<forall>e \<in> set es. \<exists>r\<ge>0. weight e = Finite r"
      by (auto simp: validWeights_def isValidWeight_Finite)
    from pathWeight_nonneg [OF this] dw show ?thesis by simp
  qed
  from p have "length p \<ge> 1" by (cases p) simp_all
  with p con dw nonneg show ?thesis unfolding path by blast
qed

theorem findPaths_success_path_witness:
  "findPaths
     [(Str ''A'', [\<lparr>from = Str ''A'', to = Str ''B'', weight = Finite 4\<rparr>,
                   \<lparr>from = Str ''A'', to = Str ''C'', weight = Finite 2\<rparr>]),
      (Str ''B'', [\<lparr>from = Str ''B'', to = Str ''C'', weight = Finite 1\<rparr>]),
      (Str ''C'', [])] (Str ''A'') (Str ''C'')
     = Some (Inr \<lparr>path = [Str ''A'', Str ''C''], distance = Finite 2\<rparr>) \<and>
   validWeights
     [(Str ''A'', [\<lparr>from = Str ''A'', to = Str ''B'', weight = Finite 4\<rparr>,
                   \<lparr>from = Str ''A'', to = Str ''C'', weight = Finite 2\<rparr>]),
      (Str ''B'', [\<lparr>from = Str ''B'', to = Str ''C'', weight = Finite 1\<rparr>]),
      (Str ''C'', [])] \<and>
   (\<exists>es. connects
       [(Str ''A'', [\<lparr>from = Str ''A'', to = Str ''B'', weight = Finite 4\<rparr>,
                     \<lparr>from = Str ''A'', to = Str ''C'', weight = Finite 2\<rparr>]),
        (Str ''B'', [\<lparr>from = Str ''B'', to = Str ''C'', weight = Finite 1\<rparr>]),
        (Str ''C'', [])] [Str ''A'', Str ''C''] es \<and>
      Finite 2 = pathWeight es) \<and>
   (\<exists>r\<ge>0. Finite 2 = Finite r)"
proof -
  let ?g = "[(Str ''A'', [\<lparr>from = Str ''A'', to = Str ''B'', weight = Finite 4\<rparr>,
                   \<lparr>from = Str ''A'', to = Str ''C'', weight = Finite 2\<rparr>]),
      (Str ''B'', [\<lparr>from = Str ''B'', to = Str ''C'', weight = Finite 1\<rparr>]),
      (Str ''C'', [])]"
  have run: "findPaths ?g (Str ''A'') (Str ''C'')
      = Some (Inr \<lparr>path = [Str ''A'', Str ''C''], distance = Finite 2\<rparr>)"
    by (simp add: eval_path)
  have valid: "validWeights ?g"
    by (simp add: validWeights_def isValidWeight_def)
  from findPaths_success_path [OF run] valid run show ?thesis by simp
qed

text \<open>
  C10: for every graph and start node, the backward walk over the \<open>previous\<close> map that
  \<open>executeDijkstraInternal\<close> returns ends for every target: it reaches \<open>null\<close> after
  finitely many steps, and the chain it lists has no node twice. So \<open>findPaths\<close>
  always returns.
\<close>

theorem predecessor_chains_terminate:
  "(\<exists>p. reconstructLoop (previous (executeDijkstraInternal graph start)) (Some target) [] = Some p \<and>
        distinct p \<and> last p = target) \<and>
   findPaths graph start target \<noteq> None"
proof -
  let ?st = "executeDijkstraInternal graph start"
  have "chainsInv ?st"
    unfolding executeDijkstraInternal_def by (intro chainsInv_loop chainsInv_init)
  from chainsInv_path [OF this, of target]
  obtain p where bp: "backPath (previous ?st) target p" by blast
  from backPath_reconstructLoop [OF bp, of "[]"]
  have loop: "reconstructLoop (previous ?st) (Some target) [] = Some p" by simp
  moreover have "distinct p" using bp by (rule backPath_distinct)
  moreover have "last p = target" using bp by (simp add: backPath_last)
  moreover have "findPaths graph start target \<noteq> None"
    using loop
    by (simp add: findPaths_def Let_def reconstructPathInternal_def
        split: option.splits sum.splits PathError.splits)
  ultimately show ?thesis by blast
qed

theorem predecessor_chains_terminate_witness:
  "reconstructLoop
     (previous (executeDijkstraInternal
        [(Str ''A'', [\<lparr>from = Str ''A'', to = Str ''B'', weight = Finite 4\<rparr>]), (Str ''B'', [])]
        (Str ''A'')))
     (Some (Str ''B'')) [] = Some [Str ''A'', Str ''B''] \<and>
   findPaths [(Str ''A'', [\<lparr>from = Str ''A'', to = Str ''B'', weight = Finite 4\<rparr>]), (Str ''B'', [])]
     (Str ''A'') (Str ''B'') \<noteq> None"
proof -
  have "reconstructLoop
     (previous (executeDijkstraInternal
        [(Str ''A'', [\<lparr>from = Str ''A'', to = Str ''B'', weight = Finite 4\<rparr>]), (Str ''B'', [])]
        (Str ''A'')))
     (Some (Str ''B'')) [] = Some [Str ''A'', Str ''B'']"
    by (simp add: eval_path)
  with predecessor_chains_terminate
    [of "[(Str ''A'', [\<lparr>from = Str ''A'', to = Str ''B'', weight = Finite 4\<rparr>]), (Str ''B'', [])]"
        "Str ''A''" "Str ''B''"]
  show ?thesis by simp
qed

section \<open>What \<open>findPaths\<close> returns\<close>

text \<open>
  For a start node that is a key: the path from a node to itself, for every node but
  NaN; \<open>NodeNotFound\<close> for the target exactly when the target is no node of the graph;
  and \<open>NoPath\<close> for every node of the graph that no directed path reaches.
\<close>

lemma finiteAt_relaxEdge: "finiteAt v st \<Longrightarrow> finiteAt v (relaxEdge c d e st)"
  by (auto simp: finiteAt_def relaxEdge_def Let_def)

lemma finiteAt_fold_relaxEdge: "finiteAt v st \<Longrightarrow> finiteAt v (fold (relaxEdge c d) es st)"
  by (induction es arbitrary: st) (simp_all add: finiteAt_relaxEdge)

lemma finiteAt_step:
  assumes "finiteAt v st" and "\<not> isPriorityQueueEmpty (queue st)"
  shows "finiteAt v (dijkstraStep g st)"
  using assms(2)
proof (cases rule: dijkstraStep_split [where g = g])
  case (skip rest)
  with assms(1) show ?thesis by (simp add: finiteAt_def)
next
  case (visit c rest)
  show ?thesis
    unfolding visit(5) using assms(1) by (intro finiteAt_fold_relaxEdge) (simp add: finiteAt_def)
qed

lemma finiteAt_loop: "finiteAt v st \<Longrightarrow> finiteAt v (dijkstraLoop g st)"
proof (induction g st rule: dijkstraLoop.induct)
  case (1 graph st)
  show ?case
  proof (cases "isPriorityQueueEmpty (queue st)")
    case True
    then show ?thesis using "1.prems" by (simp add: dijkstraLoop.simps)
  next
    case False
    from "1.IH" [OF False finiteAt_step [OF "1.prems" False]]
    show ?thesis using False by (subst dijkstraLoop.simps) simp
  qed
qed

lemma finiteAt_start:
  assumes "graph_has g s" and "s \<noteq> Num NaN"
  shows "finiteAt s (executeDijkstraInternal g s)"
proof -
  let ?st1 = "fold (initKey s) (map fst g)
      \<lparr>distances = Map.empty, previous = Map.empty, visited = {}, queue = createPriorityQueue\<rparr>"
  from assms have "distances ?st1 s = Some (Finite 0)"
    by (simp add: distances_fold_initKey graph_has_def strict_eq_def)
  from fold_initDestination_keep [OF this, of "concat (map snd g)"]
  have "finiteAt s (initDijkstra g s)"
    by (simp add: finiteAt_def initDijkstra_def Let_def)
  then show ?thesis unfolding executeDijkstraInternal_def by (rule finiteAt_loop)
qed

lemma distinct_hd_last: "distinct p \<Longrightarrow> p \<noteq> [] \<Longrightarrow> hd p = last p \<Longrightarrow> p = [hd p]"
  by (cases p) (auto split: if_splits)

lemma connects_single: "connects g [v] es \<Longrightarrow> es = []"
  by (cases es) simp_all

lemma findPaths_self:
  assumes "graph_has g s" and "s \<noteq> Num NaN"
  shows "findPaths g s s = Some (Inr \<lparr>path = [s], distance = Finite 0\<rparr>)"
proof -
  let ?st = "executeDijkstraInternal g s"
  from finiteAt_start [OF assms] obtain d where d: "distances ?st s = Some d" "d \<noteq> PosInfinity"
    by (auto simp: finiteAt_def)
  from certInv_cert [OF certInv_execute [OF assms(1)] d]
  obtain p es where c: "cert g s (previous ?st) (distances ?st) s p es" by blast
  from cert_props [OF c]
  have bp: "backPath (previous ?st) s p" and p: "p \<noteq> []" "hd p = s" "last p = s"
    and con: "connects g p es" and w: "distances ?st s = Some (pathWeight es)"
    by simp_all
  from distinct_hd_last [OF backPath_distinct [OF bp] p(1)] p have ps: "p = [s]" by simp
  with con have "es = []" by (simp add: connects_single)
  with w d have d0: "d = Finite 0" by (simp add: pathWeight_def)
  from backPath_reconstructLoop [OF bp, of "[]"] ps
  have "reconstructLoop (previous ?st) (Some s) [] = Some [s]" by simp
  with d d0 have "reconstructPathInternal (previous ?st) (distances ?st) s
      = Some (Inr \<lparr>path = [s], distance = Finite 0\<rparr>)"
    by (simp add: reconstructPathInternal_def)
  moreover from assms(1) have "length g \<noteq> 0" by (auto simp: graph_has_def)
  ultimately show ?thesis using assms(1) by (simp add: findPaths_def Let_def)
qed

lemma findPaths_empty: "findPaths [] s t = Some (Inl (NodeNotFound s))"
  by (simp add: findPaths_def)

lemma dom_fold_initKey: "dom (distances (fold (initKey s) ks st)) = dom (distances st) \<union> set ks"
  by (induction ks arbitrary: st) (auto simp: initKey_def)

lemma dom_fold_initDestination:
  "dom (distances (fold initDestination es st)) = dom (distances st) \<union> to ` set es"
  by (induction es arbitrary: st) (auto simp: initDestination_def)

lemma dom_initDijkstra: "dom (distances (initDijkstra g s)) = graphNodes g"
  by (simp add: initDijkstra_def Let_def dom_fold_initDestination dom_fold_initKey graphNodes_def)

lemma dom_relaxEdge:
  "to e \<in> dom (distances st) \<Longrightarrow> dom (distances (relaxEdge c d e st)) = dom (distances st)"
  by (auto simp: relaxEdge_def Let_def)

lemma dom_fold_relaxEdge:
  "to ` set es \<subseteq> dom (distances st) \<Longrightarrow>
   dom (distances (fold (relaxEdge c d) es st)) = dom (distances st)"
proof (induction es arbitrary: st)
  case Nil
  show ?case by simp
next
  case (Cons e es)
  then have "dom (distances (relaxEdge c d e st)) = dom (distances st)"
    by (intro dom_relaxEdge) simp
  with Cons.IH [of "relaxEdge c d e st"] Cons.prems show ?case by simp
qed

lemma dom_step:
  assumes "dom (distances st) = graphNodes g" and "\<not> isPriorityQueueEmpty (queue st)"
  shows "dom (distances (dijkstraStep g st)) = graphNodes g"
  using assms(2)
proof (cases rule: dijkstraStep_split [where g = g])
  case (skip rest)
  with assms(1) show ?thesis by simp
next
  case (visit c rest)
  show ?thesis
    unfolding visit(5) using assms(1) edgesOf_nodes [of g c]
    by (subst dom_fold_relaxEdge) simp_all
qed

lemma dom_loop:
  "dom (distances st) = graphNodes g \<Longrightarrow> dom (distances (dijkstraLoop g st)) = graphNodes g"
proof (induction g st rule: dijkstraLoop.induct)
  case (1 graph st)
  show ?case
  proof (cases "isPriorityQueueEmpty (queue st)")
    case True
    then show ?thesis using "1.prems" by (simp add: dijkstraLoop.simps)
  next
    case False
    from "1.IH" [OF False dom_step [OF "1.prems" False]]
    show ?thesis using False by (subst dijkstraLoop.simps) simp
  qed
qed

lemma dom_execute: "dom (distances (executeDijkstraInternal g s)) = graphNodes g"
  unfolding executeDijkstraInternal_def by (intro dom_loop dom_initDijkstra)

lemma findPaths_NodeNotFound_iff:
  assumes "graph_has g s"
  shows "findPaths g s t = Some (Inl (NodeNotFound t)) \<longleftrightarrow> t \<notin> graphNodes g"
proof -
  let ?st = "executeDijkstraInternal g s"
  from assms have ne: "length g \<noteq> 0" by (auto simp: graph_has_def)
  show ?thesis
  proof (cases "distances ?st t")
    case None
    then have "t \<notin> graphNodes g" using dom_execute [of g s] by auto
    moreover have "findPaths g s t = Some (Inl (NodeNotFound t))"
      using None assms ne by (simp add: findPaths_def Let_def reconstructPathInternal_def)
    ultimately show ?thesis by simp
  next
    case (Some d)
    then have "t \<in> graphNodes g" using dom_execute [of g s] by auto
    moreover have "findPaths g s t \<noteq> Some (Inl (NodeNotFound t))"
      using Some assms ne
      by (auto simp: findPaths_def Let_def reconstructPathInternal_def split: option.splits)
    ultimately show ?thesis by simp
  qed
qed

lemma findPaths_unreachable_NoPath:
  assumes "graph_has g s" and "t \<in> graphNodes g" and "\<not> reachable g s t"
  shows "findPaths g s t = Some (Inl (NoPath s t))"
proof -
  let ?st = "executeDijkstraInternal g s"
  from assms(1) have ne: "length g \<noteq> 0" by (auto simp: graph_has_def)
  from assms(2) obtain d where d: "distances ?st t = Some d"
    using dom_execute [of g s] by auto
  have "d = PosInfinity"
  proof (rule ccontr)
    assume "d \<noteq> PosInfinity"
    from certInv_cert [OF certInv_execute [OF assms(1)] d this]
    obtain p es where "cert g s (previous ?st) (distances ?st) t p es" by blast
    from cert_props [OF this] have "reachable g s t" unfolding reachable_def by blast
    with assms(3) show False by simp
  qed
  with d assms(1) ne show ?thesis
    by (simp add: findPaths_def Let_def reconstructPathInternal_def)
qed

lemma findPaths_NoPath_known:
  assumes "findPaths g s t = Some (Inl (NoPath s' t'))"
  shows "s' = s \<and> t' = t \<and> graph_has g s \<and> t \<in> graphNodes g"
proof -
  let ?st = "executeDijkstraInternal g s"
  from assms have has: "graph_has g s"
    by (auto simp: findPaths_def split: if_splits)
  from assms have "distances ?st t \<noteq> None \<and> s' = s \<and> t' = t"
    by (auto simp: findPaths_def Let_def reconstructPathInternal_def
        split: if_splits option.splits sum.splits PathError.splits)
  with has dom_execute [of g s] show ?thesis by auto
qed

section \<open>Optimality on graphs without falsy nodes\<close>

text \<open>
  In a graph whose weights are valid and none of whose nodes is falsy (no number 0, no
  empty string, no NaN), the loop is Dijkstra's algorithm with lazy deletion: when
  the queue is empty, every node that a directed path from the start reaches is
  visited, and its distance is at most the weight of that path. So there \<open>findPaths\<close>
  is optimal, and it succeeds for every reachable target. This is a statement about
  exact sums: a sum of doubles that overflows is \<open>Infinity\<close> in the code, which then
  leaves the node unreached, and that is outside this model.
\<close>

lemma finitePrio_cmp:
  "finitePrio x \<Longrightarrow> finitePrio y \<Longrightarrow>
   js_less (js_sub (priority x) (priority y)) (Finite 0) \<longleftrightarrow> prioVal x < prioVal y"
  by (cases "priority x"; cases "priority y") (auto simp: finitePrio_def prioVal_def js_sub_def)

lemma sorted_sort_insert:
  "sorted (map prioVal ys) \<Longrightarrow> finitePrio x \<Longrightarrow> \<forall>y \<in> set ys. finitePrio y \<Longrightarrow>
   sorted (map prioVal (sort_insert (\<lambda>a b. js_sub (priority a) (priority b)) x ys))"
proof (induction ys)
  case Nil
  show ?case by simp
next
  case (Cons y ys)
  show ?case
  proof (cases "prioVal x < prioVal y")
    case True
    with Cons.prems show ?thesis by (auto simp: finitePrio_cmp)
  next
    case False
    with Cons.prems Cons.IH show ?thesis
      by (auto simp: finitePrio_cmp set_sort_insert)
  qed
qed

lemma sorted_foldl_sort_insert:
  "sorted (map prioVal acc) \<Longrightarrow> \<forall>y \<in> set acc \<union> set xs. finitePrio y \<Longrightarrow>
   sorted (map prioVal (foldl (\<lambda>sorted x. sort_insert (\<lambda>a b. js_sub (priority a) (priority b)) x sorted) acc xs))"
proof (induction xs arbitrary: acc)
  case Nil
  then show ?case by simp
next
  case (Cons x xs)
  have "sorted (map prioVal (sort_insert (\<lambda>a b. js_sub (priority a) (priority b)) x acc))"
    using Cons.prems by (intro sorted_sort_insert) auto
  moreover have "\<forall>y \<in> set (sort_insert (\<lambda>a b. js_sub (priority a) (priority b)) x acc) \<union> set xs. finitePrio y"
    using Cons.prems by (auto simp: set_sort_insert)
  ultimately show ?case using Cons.IH by simp
qed

lemma sorted_enqueue:
  assumes "\<forall>y \<in> set (items q). finitePrio y" and "isFinite p"
  shows "sorted (map prioVal (items (enqueuePriorityQueue q x p)))"
proof -
  have "\<forall>y \<in> set [] \<union> set (items q @ [\<lparr>item = x, priority = p\<rparr>]). finitePrio y"
    using assms by (auto simp: finitePrio_def)
  from sorted_foldl_sort_insert [OF _ this] show ?thesis
    by (simp add: enqueuePriorityQueue_def js_sort_def)
qed

lemma optInv_relaxEdge:
  assumes inv: "optInv g s X st" and X: "X \<subseteq> visited st" and c: "c \<in> visited st"
    and dc: "distOf st c = Finite a" and bel: "below a st"
    and w: "weight e = Finite w" "0 \<le> w" and te: "to e \<in> graphNodes g"
  shows "optInv g s X (relaxEdge c (Finite a) e st) \<and> below a (relaxEdge c (Finite a) e st) \<and>
         distOf (relaxEdge c (Finite a) e st) c = Finite a \<and>
         (\<exists>b. distOf (relaxEdge c (Finite a) e st) (to e) = Finite b \<and> b \<le> a + w)"
proof (cases "to e \<in> visited st")
  case True
  then have same: "relaxEdge c (Finite a) e st = st" by (simp add: relaxEdge_def)
  from bel True obtain b where "distOf st (to e) = Finite b" "b \<le> a" by (auto simp: below_def)
  with w have "\<exists>b. distOf st (to e) = Finite b \<and> b \<le> a + w" by auto
  with inv bel dc show ?thesis unfolding same by simp
next
  case nv: False
  let ?v = "to e"
  from inv have A: "\<And>v. distOf st v = PosInfinity \<or> (\<exists>a\<ge>0. distOf st v = Finite a)"
    by (simp add: optInv_def)
  from inv c dc have a0: "0 \<le> a" using A [of c] by auto
  show ?thesis
  proof (cases "js_less (Finite (a + w)) (distOf st ?v)")
    case False
    then have same: "relaxEdge c (Finite a) e st = st"
      using nv w by (simp add: relaxEdge_def Let_def distOf_def)
    from False A [of ?v] have "\<exists>b. distOf st ?v = Finite b \<and> b \<le> a + w" by auto
    with inv bel dc show ?thesis unfolding same by simp
  next
    case True
    let ?st = "st\<lparr>distances := (distances st)(?v \<mapsto> Finite (a + w)),
                   previous := (previous st)(?v \<mapsto> Some c),
                   queue := enqueuePriorityQueue (queue st) ?v (Finite (a + w))\<rparr>"
    have eq: "relaxEdge c (Finite a) e st = ?st"
      using nv w True by (simp add: relaxEdge_def Let_def distOf_def)
    have d': "distOf ?st x = (if x = ?v then Finite (a + w) else distOf st x)" for x
      by (simp add: distOf_def)
    have vis: "visited ?st = visited st" by simp
    have its: "set (items (queue ?st)) = insert \<lparr>item = ?v, priority = Finite (a + w)\<rparr> (set (items (queue st)))"
      by (simp add: items_enqueue)
    from True A [of ?v] have old: "distOf st ?v = PosInfinity \<or> (\<exists>b. distOf st ?v = Finite b \<and> a + w < b)"
      by auto
    from inv have G: "distOf st s = Finite 0" by (simp add: optInv_def)
    have vs: "?v \<noteq> s"
    proof
      assume "?v = s"
      with G True a0 w show False by simp
    qed
    have 1: "\<forall>x. distOf ?st x = PosInfinity \<or> (\<exists>a\<ge>0. distOf ?st x = Finite a)"
      using A a0 w by (auto simp: d')
    have 2: "distOf ?st s = Finite 0" using G vs by (simp add: d')
    have 3: "\<forall>x \<in> visited ?st. \<exists>a. distOf ?st x = Finite a"
      using inv nv by (auto simp: optInv_def d')
    have 4: "\<forall>x \<in> set (items (queue ?st)). item x \<in> graphNodes g \<and>
        (\<exists>r a. priority x = Finite r \<and> distOf ?st (item x) = Finite a \<and> a \<le> r)"
    proof
      fix x
      assume "x \<in> set (items (queue ?st))"
      then consider "x = \<lparr>item = ?v, priority = Finite (a + w)\<rparr>" | "x \<in> set (items (queue st))"
        unfolding its by blast
      then show "item x \<in> graphNodes g \<and>
        (\<exists>r a. priority x = Finite r \<and> distOf ?st (item x) = Finite a \<and> a \<le> r)"
      proof cases
        case 1
        with te show ?thesis by (simp add: d')
      next
        case 2
        with inv obtain r b where x: "item x \<in> graphNodes g" "priority x = Finite r"
          "distOf st (item x) = Finite b" "b \<le> r"
          unfolding optInv_def by blast
        show ?thesis
        proof (cases "item x = ?v")
          case True
          with x old have "a + w \<le> r" by auto
          with x True show ?thesis by (simp add: d')
        next
          case False
          with x show ?thesis by (simp add: d')
        qed
      qed
    qed
    have 5: "\<forall>x b. x \<notin> visited ?st \<longrightarrow> distOf ?st x = Finite b \<longrightarrow>
        \<lparr>item = x, priority = Finite b\<rparr> \<in> set (items (queue ?st))"
    proof (intro allI impI)
      fix x b
      assume x: "x \<notin> visited ?st" "distOf ?st x = Finite b"
      show "\<lparr>item = x, priority = Finite b\<rparr> \<in> set (items (queue ?st))"
      proof (cases "x = ?v")
        case True
        with x show ?thesis unfolding its by (simp add: d')
      next
        case False
        with x inv have "\<lparr>item = x, priority = Finite b\<rparr> \<in> set (items (queue st))"
          unfolding optInv_def by (simp add: d')
        then show ?thesis unfolding its by simp
      qed
    qed
    have fp: "\<forall>y \<in> set (items (queue st)). finitePrio y"
      using inv unfolding optInv_def finitePrio_def by fastforce
    have 6: "sorted (map prioVal (items (queue ?st)))"
      using sorted_enqueue [OF fp, of "Finite (a + w)" ?v] by simp
    have 7: "\<forall>x \<in> visited ?st. \<forall>y \<in> set (items (queue ?st)).
        \<exists>a r. distOf ?st x = Finite a \<and> priority y = Finite r \<and> a \<le> r"
    proof (intro ballI)
      fix x y
      assume x: "x \<in> visited ?st" and y: "y \<in> set (items (queue ?st))"
      from x nv have xv: "x \<noteq> ?v" by auto
      from y consider "y = \<lparr>item = ?v, priority = Finite (a + w)\<rparr>" | "y \<in> set (items (queue st))"
        unfolding its by blast
      then show "\<exists>a r. distOf ?st x = Finite a \<and> priority y = Finite r \<and> a \<le> r"
      proof cases
        case 1
        from bel x obtain b where "distOf st x = Finite b" "b \<le> a" by (auto simp: below_def)
        with 1 xv w show ?thesis by (simp add: d')
      next
        case 2
        with inv x have "\<exists>a r. distOf st x = Finite a \<and> priority y = Finite r \<and> a \<le> r"
          unfolding optInv_def by simp
        with xv show ?thesis by (simp add: d')
      qed
    qed
    have 8: "\<forall>u \<in> X. \<forall>e' \<in> set (edgesOf g u).
        \<exists>a w b. distOf ?st u = Finite a \<and> weight e' = Finite w \<and> distOf ?st (to e') = Finite b \<and> b \<le> a + w"
    proof (intro ballI)
      fix u e'
      assume u: "u \<in> X" and e': "e' \<in> set (edgesOf g u)"
      with inv obtain a' w' b' where o: "distOf st u = Finite a'" "weight e' = Finite w'"
        "distOf st (to e') = Finite b'" "b' \<le> a' + w'"
        unfolding optInv_def by blast
      from u X nv have uv: "u \<noteq> ?v" by auto
      show "\<exists>a w b. distOf ?st u = Finite a \<and> weight e' = Finite w \<and> distOf ?st (to e') = Finite b \<and> b \<le> a + w"
      proof (cases "to e' = ?v")
        case True
        with o old have "a + w \<le> a' + w'" by auto
        with o uv True show ?thesis by (simp add: d')
      next
        case False
        with o uv show ?thesis by (simp add: d')
      qed
    qed
    have inv': "optInv g s X ?st"
      unfolding optInv_def using 1 2 3 4 5 6 7 8 by blast
    have bel': "below a ?st"
      using bel nv unfolding below_def by (auto simp: d')
    have dc': "distOf ?st c = Finite a" using dc c nv by (auto simp: d')
    have "\<exists>b. distOf ?st ?v = Finite b \<and> b \<le> a + w" by (simp add: d')
    with inv' bel' dc' show ?thesis unfolding eq by blast
  qed
qed
lemma relaxEdge_mono:
  assumes "weight e = Finite w" and "distOf st v = Finite b"
  shows "\<exists>b'. distOf (relaxEdge c (Finite a) e st) v = Finite b' \<and> b' \<le> b"
  using assms by (auto simp: relaxEdge_def Let_def distOf_def)

lemma fold_relaxEdge_mono:
  "\<forall>e \<in> set es. \<exists>w. weight e = Finite w \<Longrightarrow> distOf st v = Finite b \<Longrightarrow>
   \<exists>b'. distOf (fold (relaxEdge c (Finite a)) es st) v = Finite b' \<and> b' \<le> b"
proof (induction es arbitrary: st b)
  case Nil
  then show ?case by simp
next
  case (Cons e es)
  from Cons.prems obtain w where "weight e = Finite w" by auto
  from relaxEdge_mono [OF this Cons.prems(2), of c a]
  obtain b1 where b1: "distOf (relaxEdge c (Finite a) e st) v = Finite b1" "b1 \<le> b" by blast
  from Cons.IH [OF _ b1(1)] Cons.prems(1)
  obtain b' where "distOf (fold (relaxEdge c (Finite a)) es (relaxEdge c (Finite a) e st)) v = Finite b'"
    "b' \<le> b1" by auto
  with b1 show ?case by auto
qed

lemma optInv_fold_relaxEdge:
  "optInv g s X st \<Longrightarrow> X \<subseteq> visited st \<Longrightarrow> c \<in> visited st \<Longrightarrow> distOf st c = Finite a \<Longrightarrow>
   below a st \<Longrightarrow> \<forall>e \<in> set es. (\<exists>w\<ge>0. weight e = Finite w) \<and> to e \<in> graphNodes g \<Longrightarrow>
   optInv g s X (fold (relaxEdge c (Finite a)) es st) \<and>
   distOf (fold (relaxEdge c (Finite a)) es st) c = Finite a \<and>
   (\<forall>e \<in> set es. \<exists>w b. weight e = Finite w \<and>
      distOf (fold (relaxEdge c (Finite a)) es st) (to e) = Finite b \<and> b \<le> a + w)"
proof (induction es arbitrary: st)
  case Nil
  then show ?case by simp
next
  case (Cons e es)
  let ?st1 = "relaxEdge c (Finite a) e st"
  let ?st' = "fold (relaxEdge c (Finite a)) es ?st1"
  from Cons.prems(6) obtain w where w: "weight e = Finite w" "0 \<le> w" and te: "to e \<in> graphNodes g"
    by auto
  from optInv_relaxEdge [OF Cons.prems(1,2,3,4,5) w te]
  obtain b where 1: "optInv g s X ?st1" "below a ?st1" "distOf ?st1 c = Finite a"
    "distOf ?st1 (to e) = Finite b" "b \<le> a + w"
    by blast
  have v1: "visited ?st1 = visited st" by (simp add: visited_relaxEdge)
  from Cons.prems(6) have rest: "\<forall>e \<in> set es. (\<exists>w\<ge>0. weight e = Finite w) \<and> to e \<in> graphNodes g"
    by simp
  from Cons.IH [OF 1(1) _ _ 1(3) 1(2) rest] Cons.prems(2,3)
  have IH: "optInv g s X ?st'" "distOf ?st' c = Finite a"
    "\<forall>e \<in> set es. \<exists>w b. weight e = Finite w \<and> distOf ?st' (to e) = Finite b \<and> b \<le> a + w"
    by (simp_all add: v1)
  from rest have "\<forall>e \<in> set es. \<exists>w. weight e = Finite w" by blast
  from fold_relaxEdge_mono [OF this 1(4), of c a] 1(5) w
  have "\<exists>w b. weight e = Finite w \<and> distOf ?st' (to e) = Finite b \<and> b \<le> a + w" by auto
  with IH show ?case by simp
qed

lemma edgesOf_valid:
  assumes "validWeights g" and "e \<in> set (edgesOf g c)"
  shows "(\<exists>w\<ge>0. weight e = Finite w) \<and> to e \<in> graphNodes g"
  using assms edgesOf_subset [of g c] edgesOf_nodes [of g c]
  by (auto simp: validWeights_def isValidWeight_Finite)

lemma optInv_step:
  assumes inv: "optInv g s (visited st) st" and ne: "\<not> isPriorityQueueEmpty (queue st)"
    and valid: "validWeights g" and truthy: "\<forall>v \<in> graphNodes g. \<not> falsy v"
  shows "optInv g s (visited (dijkstraStep g st)) (dijkstraStep g st)"
proof -
  from ne obtain first rest where q: "items (queue st) = first # rest"
    by (cases "items (queue st)") (auto simp: isPriorityQueueEmpty_def)
  let ?c = "item first"
  from inv q obtain r a where f: "?c \<in> graphNodes g" "priority first = Finite r"
    "distOf st ?c = Finite a" "a \<le> r"
    unfolding optInv_def by fastforce
  from f(1) truthy have nf: "\<not> falsy ?c" by blast
  from inv q have srt: "sorted (map prioVal (first # rest))" by (simp add: optInv_def)
  from dijkstraStep_cases [OF q, of g] nf
  consider (skip) "dijkstraStep g st = st\<lparr>queue := \<lparr>items = rest\<rparr>\<rparr>" "?c \<in> visited st"
    | (visit) "dijkstraStep g st =
            fold (relaxEdge ?c (case distances st ?c of Some d \<Rightarrow> d | None \<Rightarrow> PosInfinity))
              (edgesOf g ?c)
              (st\<lparr>queue := \<lparr>items = rest\<rparr>, visited := insert ?c (visited st)\<rparr>)"
        "?c \<notin> visited st"
    by blast
  then show ?thesis
  proof cases
    case skip
    let ?st = "st\<lparr>queue := \<lparr>items = rest\<rparr>\<rparr>"
    have d: "distOf ?st = distOf st" by (simp add: distOf_def fun_eq_iff)
    have C: "\<forall>v a. v \<notin> visited st \<longrightarrow> distOf st v = Finite a \<longrightarrow>
        \<lparr>item = v, priority = Finite a\<rparr> \<in> set rest"
    proof (intro allI impI)
      fix v a
      assume v: "v \<notin> visited st" "distOf st v = Finite a"
      with inv have "\<lparr>item = v, priority = Finite a\<rparr> \<in> set (first # rest)"
        unfolding optInv_def q [symmetric] by blast
      moreover from v skip(2) have "\<lparr>item = v, priority = Finite a\<rparr> \<noteq> first" by auto
      ultimately show "\<lparr>item = v, priority = Finite a\<rparr> \<in> set rest" by simp
    qed
    have "optInv g s (visited st) ?st"
      unfolding optInv_def d using inv C srt
      by (simp add: optInv_def q)
    then show ?thesis by (simp add: skip(1))
  next
    case visit
    let ?st2 = "st\<lparr>queue := \<lparr>items = rest\<rparr>, visited := insert ?c (visited st)\<rparr>"
    have d: "distOf ?st2 = distOf st" by (simp add: distOf_def fun_eq_iff)
    have cd: "(case distances st ?c of Some d \<Rightarrow> d | None \<Rightarrow> PosInfinity) = Finite a"
      using f(3) by (simp add: distOf_def)
    from inv visit(2) f(3) have "\<lparr>item = ?c, priority = Finite a\<rparr> \<in> set (first # rest)"
      unfolding optInv_def q [symmetric] by blast
    then consider "\<lparr>item = ?c, priority = Finite a\<rparr> = first"
      | "\<lparr>item = ?c, priority = Finite a\<rparr> \<in> set rest"
      by auto
    then have "r \<le> a"
    proof cases
      case 1
      then have "priority first = Finite a" by (cases first) auto
      with f(2) show ?thesis by simp
    next
      case 2
      with srt have "prioVal first \<le> prioVal \<lparr>item = ?c, priority = Finite a\<rparr>" by auto
      with f(2) show ?thesis by (simp add: prioVal_def)
    qed
    with f(4) have ar: "a = r" by simp
    have restge: "\<forall>x \<in> set rest. \<exists>r'. priority x = Finite r' \<and> a \<le> r'"
    proof
      fix x
      assume x: "x \<in> set rest"
      with inv q obtain r' where "priority x = Finite r'" unfolding optInv_def by fastforce
      moreover from srt x have "prioVal first \<le> prioVal x" by auto
      ultimately show "\<exists>r'. priority x = Finite r' \<and> a \<le> r'"
        using f(2) ar by (simp add: prioVal_def)
    qed
    have bel: "below a ?st2"
      unfolding below_def d
    proof
      fix v
      assume "v \<in> visited ?st2"
      then consider "v = ?c" | "v \<in> visited st" by auto
      then show "\<exists>b. distOf st v = Finite b \<and> b \<le> a"
      proof cases
        case 1
        with f(3) show ?thesis by simp
      next
        case 2
        with inv q have "\<exists>b r'. distOf st v = Finite b \<and> priority first = Finite r' \<and> b \<le> r'"
          unfolding optInv_def by simp
        with f(2) ar show ?thesis by auto
      qed
    qed
    have C: "\<forall>v b. v \<notin> insert ?c (visited st) \<longrightarrow> distOf st v = Finite b \<longrightarrow>
        \<lparr>item = v, priority = Finite b\<rparr> \<in> set rest"
    proof (intro allI impI)
      fix v b
      assume v: "v \<notin> insert ?c (visited st)" "distOf st v = Finite b"
      with inv have "\<lparr>item = v, priority = Finite b\<rparr> \<in> set (first # rest)"
        unfolding optInv_def q [symmetric] by blast
      moreover from v have "\<lparr>item = v, priority = Finite b\<rparr> \<noteq> first" by auto
      ultimately show "\<lparr>item = v, priority = Finite b\<rparr> \<in> set rest" by simp
    qed
    have M: "\<forall>v \<in> insert ?c (visited st). \<forall>x \<in> set rest.
        \<exists>b r'. distOf st v = Finite b \<and> priority x = Finite r' \<and> b \<le> r'"
    proof (intro ballI)
      fix v x
      assume v: "v \<in> insert ?c (visited st)" and x: "x \<in> set rest"
      from restge x obtain r' where r': "priority x = Finite r'" "a \<le> r'" by blast
      from bel v obtain b where "distOf st v = Finite b" "b \<le> a" unfolding below_def d by auto
      with r' show "\<exists>b r'. distOf st v = Finite b \<and> priority x = Finite r' \<and> b \<le> r'" by auto
    qed
    have inv2: "optInv g s (visited st) ?st2"
      unfolding optInv_def d using inv C M srt f(3)
      by (simp add: optInv_def q)
    have edges: "\<forall>e \<in> set (edgesOf g ?c). (\<exists>w\<ge>0. weight e = Finite w) \<and> to e \<in> graphNodes g"
      using edgesOf_valid [OF valid] by blast
    have dc2: "distOf ?st2 ?c = Finite a" using f(3) by (simp add: d)
    from optInv_fold_relaxEdge [OF inv2 _ _ dc2 bel edges]
    have res: "optInv g s (visited st) (dijkstraStep g st)"
      "distOf (dijkstraStep g st) ?c = Finite a"
      "\<forall>e \<in> set (edgesOf g ?c). \<exists>w b. weight e = Finite w \<and>
          distOf (dijkstraStep g st) (to e) = Finite b \<and> b \<le> a + w"
      unfolding visit(1) cd by auto
    have v': "visited (dijkstraStep g st) = insert ?c (visited st)"
      unfolding visit(1) by (simp add: visited_fold_relaxEdge)
    have E: "\<forall>u \<in> insert ?c (visited st). \<forall>e \<in> set (edgesOf g u).
        \<exists>a w b. distOf (dijkstraStep g st) u = Finite a \<and> weight e = Finite w \<and>
          distOf (dijkstraStep g st) (to e) = Finite b \<and> b \<le> a + w"
    proof (intro ballI)
      fix u e
      assume u: "u \<in> insert ?c (visited st)" and e: "e \<in> set (edgesOf g u)"
      show "\<exists>a w b. distOf (dijkstraStep g st) u = Finite a \<and> weight e = Finite w \<and>
          distOf (dijkstraStep g st) (to e) = Finite b \<and> b \<le> a + w"
      proof (cases "u = ?c")
        case True
        with res(2,3) e show ?thesis by blast
      next
        case False
        with u have "u \<in> visited st" by simp
        with res(1) e show ?thesis unfolding optInv_def by blast
      qed
    qed
    from res(1) E show ?thesis
      unfolding v' optInv_def by simp
  qed
qed

lemma optInv_loop:
  "optInv g s (visited st) st \<Longrightarrow> validWeights g \<Longrightarrow> \<forall>v \<in> graphNodes g. \<not> falsy v \<Longrightarrow>
   optInv g s (visited (dijkstraLoop g st)) (dijkstraLoop g st)"
proof (induction g st rule: dijkstraLoop.induct)
  case (1 graph st)
  show ?case
  proof (cases "isPriorityQueueEmpty (queue st)")
    case True
    then show ?thesis using "1.prems" by (simp add: dijkstraLoop.simps)
  next
    case False
    from "1.IH" [OF False optInv_step [OF "1.prems"(1) False "1.prems"(2,3)] "1.prems"(2,3)]
    show ?thesis using False by (subst (1 2) dijkstraLoop.simps) simp
  qed
qed
lemma connects_nonempty: "connects g p es \<Longrightarrow> p \<noteq> []"
  by (induction g p es rule: connects.induct) simp_all

lemma connects_snoc_decomp:
  "connects g p (es @ [e]) \<Longrightarrow>
   \<exists>p' v. p = p' @ [v] \<and> connects g p' es \<and> e \<in> set (edgesOf g (last p')) \<and> to e = v \<and> hd p = hd p'"
proof (induction es arbitrary: p)
  case Nil
  then obtain u v where p: "p = [u, v]" and e: "e \<in> set (edgesOf g u)" "to e = v"
    by (cases p; cases "tl p"; cases "tl (tl p)") auto
  then show ?case by (intro exI [of _ "[u]"] exI [of _ v]) simp
next
  case (Cons e0 es)
  from Cons.prems obtain u v' rest where p: "p = u # v' # rest"
    and e0: "e0 \<in> set (edgesOf g u)" "to e0 = v'" and c: "connects g (v' # rest) (es @ [e])"
    by (cases p; cases "tl p") auto
  from Cons.IH [OF c] obtain p'' v where d: "v' # rest = p'' @ [v]" "connects g p'' es"
    "e \<in> set (edgesOf g (last p''))" "to e = v" "hd (v' # rest) = hd p''"
    by blast
  from connects_nonempty [OF d(2)] d(5) obtain tl'' where p'': "p'' = v' # tl''"
    by (cases p'') auto
  have "connects g (u # p'') (e0 # es)" using e0 d(2) by (simp add: p'')
  moreover have "p = (u # p'') @ [v]" using p d(1) by simp
  moreover have "last (u # p'') = last p''" by (simp add: p'')
  ultimately show ?case using d(3,4) by (intro exI [of _ "u # p''"] exI [of _ v]) simp
qed

lemma connects_Nil_edges: "connects g p [] \<Longrightarrow> \<exists>v. p = [v]"
  by (cases p; cases "tl p") auto

lemma final_path:
  assumes inv: "optInv g s (visited st) st" and empty: "items (queue st) = []"
  shows "connects g p es \<Longrightarrow> hd p = s \<Longrightarrow>
    last p \<in> visited st \<and> (\<exists>b W. distOf st (last p) = Finite b \<and> pathWeight es = Finite W \<and> b \<le> W)"
proof (induction es arbitrary: p rule: rev_induct)
  case Nil
  then obtain v where "p = [v]" by (auto dest: connects_Nil_edges)
  with Nil.prems have p: "p = [s]" by simp
  from inv have z: "distOf st s = Finite 0" by (simp add: optInv_def)
  have "s \<in> visited st"
  proof (rule ccontr)
    assume "s \<notin> visited st"
    with inv z have "\<lparr>item = s, priority = Finite 0\<rparr> \<in> set (items (queue st))"
      unfolding optInv_def by blast
    with empty show False by simp
  qed
  with z show ?case by (simp add: p pathWeight_def)
next
  case (snoc e es)
  from connects_snoc_decomp [OF snoc.prems(1)] obtain p' v where d: "p = p' @ [v]"
    "connects g p' es" "e \<in> set (edgesOf g (last p'))" "to e = v" "hd p = hd p'"
    by blast
  from snoc.IH [OF d(2)] snoc.prems(2) d(5) obtain b W where u: "last p' \<in> visited st"
    "distOf st (last p') = Finite b" "pathWeight es = Finite W" "b \<le> W"
    by auto
  from inv u(1) d(3) obtain a w b' where r: "distOf st (last p') = Finite a" "weight e = Finite w"
    "distOf st (to e) = Finite b'" "b' \<le> a + w"
    unfolding optInv_def by blast
  have "v \<in> visited st"
  proof (rule ccontr)
    assume "v \<notin> visited st"
    with inv r(3) d(4) have "\<lparr>item = v, priority = Finite b'\<rparr> \<in> set (items (queue st))"
      unfolding optInv_def by blast
    with empty show False by simp
  qed
  moreover have "pathWeight (es @ [e]) = Finite (W + w)"
    using u(3) r(2) by (simp add: pathWeight_snoc)
  moreover have "b' \<le> W + w" using r(1,4) u(2,4) by simp
  ultimately show ?case using r(3) d(1,4) by simp
qed

lemma initDijkstra_start_zero:
  assumes "graph_has g s" and "s \<noteq> Num NaN"
  shows "distances (initDijkstra g s) s = Some (Finite 0)"
proof -
  let ?st1 = "fold (initKey s) (map fst g)
      \<lparr>distances = Map.empty, previous = Map.empty, visited = {}, queue = createPriorityQueue\<rparr>"
  from assms have "distances ?st1 s = Some (Finite 0)"
    by (simp add: distances_fold_initKey graph_has_def strict_eq_def)
  from fold_initDestination_keep [OF this, of "concat (map snd g)"]
  show ?thesis by (simp add: initDijkstra_def Let_def)
qed

lemma items_initDijkstra:
  "items (queue (initDijkstra g s)) = [\<lparr>item = s, priority = Finite 0\<rparr>]"
  by (simp add: initDijkstra_def Let_def enqueuePriorityQueue_def createPriorityQueue_def js_sort_def)

lemma optInv_init:
  assumes has: "graph_has g s" and truthy: "\<not> falsy s"
  shows "optInv g s (visited (initDijkstra g s)) (initDijkstra g s)"
proof -
  let ?st = "initDijkstra g s"
  from truthy have nan: "s \<noteq> Num NaN" by auto
  have z: "distOf ?st s = Finite 0"
    using initDijkstra_start_zero [OF has nan] by (simp add: distOf_def)
  have fin: "v = s \<and> a = 0" if "distOf ?st v = Finite a" for v a
  proof (cases "distances ?st v")
    case None
    with that show ?thesis by (simp add: distOf_def)
  next
    case (Some d)
    with that have "d = Finite a" by (simp add: distOf_def)
    with initDijkstra_finite [OF Some] show ?thesis by simp
  qed
  have A: "distOf ?st v = PosInfinity \<or> (\<exists>a\<ge>0. distOf ?st v = Finite a)" for v
  proof (cases "distances ?st v")
    case None
    then show ?thesis by (simp add: distOf_def)
  next
    case (Some d)
    with initDijkstra_finite [OF Some] show ?thesis by (cases "d = PosInfinity") (auto simp: distOf_def)
  qed
  from has have sn: "s \<in> graphNodes g" by (auto simp: graph_has_def graphNodes_def)
  show ?thesis
    unfolding optInv_def using A z fin sn
    by (auto simp: visited_initDijkstra items_initDijkstra prioVal_def)
qed

lemma optInv_execute:
  assumes "graph_has g s" and "validWeights g" and "\<forall>v \<in> graphNodes g. \<not> falsy v"
  shows "optInv g s (visited (executeDijkstraInternal g s)) (executeDijkstraInternal g s) \<and>
         items (queue (executeDijkstraInternal g s)) = []"
proof -
  from assms(1) have "s \<in> graphNodes g" by (auto simp: graph_has_def graphNodes_def)
  with assms(3) have "\<not> falsy s" by blast
  from optInv_loop [OF optInv_init [OF assms(1) this] assms(2,3)]
  have "optInv g s (visited (executeDijkstraInternal g s)) (executeDijkstraInternal g s)"
    by (simp add: executeDijkstraInternal_def)
  moreover have "items (queue (dijkstraLoop g st)) = []" for st
    by (induction g st rule: dijkstraLoop.induct)
      (subst dijkstraLoop.simps, simp add: isPriorityQueueEmpty_def)
  ultimately show ?thesis by (simp add: executeDijkstraInternal_def)
qed

lemma findPaths_optimal:
  assumes valid: "validWeights g" and truthy: "\<forall>v \<in> graphNodes g. \<not> falsy v"
    and run: "findPaths g s t = Some (Inr sp)"
    and path: "connects g p es" "hd p = s" "last p = t"
  shows "\<exists>d W. distance sp = Finite d \<and> pathWeight es = Finite W \<and> d \<le> W"
proof -
  let ?st = "executeDijkstraInternal g s"
  from run have has: "graph_has g s"
    by (auto simp: findPaths_def split: if_splits)
  from run have "reconstructPathInternal (previous ?st) (distances ?st) t = Some (Inr sp)"
    by (auto simp: findPaths_def Let_def
        split: if_splits option.splits sum.splits PathError.splits)
  then have d: "distances ?st t = Some (distance sp)"
    by (auto simp: reconstructPathInternal_def split: option.splits if_splits)
  from optInv_execute [OF has valid truthy]
  have "optInv g s (visited ?st) ?st" "items (queue ?st) = []" by simp_all
  from final_path [OF this path(1,2)] path(3) d show ?thesis by (simp add: distOf_def)
qed

lemma findPaths_complete:
  assumes valid: "validWeights g" and truthy: "\<forall>v \<in> graphNodes g. \<not> falsy v"
    and has: "graph_has g s" and reach: "reachable g s t"
  shows "\<exists>sp. findPaths g s t = Some (Inr sp)"
proof -
  let ?st = "executeDijkstraInternal g s"
  from reach obtain p es where path: "connects g p es" "hd p = s" "last p = t"
    by (auto simp: reachable_def)
  from optInv_execute [OF has valid truthy]
  have "optInv g s (visited ?st) ?st" "items (queue ?st) = []" by simp_all
  from final_path [OF this path(1,2)] path(3)
  obtain b where b: "distOf ?st t = Finite b" by auto
  then have d: "distances ?st t = Some (Finite b)"
    by (cases "distances ?st t") (auto simp: distOf_def)
  from certInv_cert [OF certInv_execute [OF has] d]
  obtain q es' where "cert g s (previous ?st) (distances ?st) t q es'" by blast
  from cert_props [OF this] have "backPath (previous ?st) t q" by simp
  from backPath_reconstructLoop [OF this, of "[]"] d
  have "reconstructPathInternal (previous ?st) (distances ?st) t
      = Some (Inr \<lparr>path = q, distance = Finite b\<rparr>)"
    by (simp add: reconstructPathInternal_def)
  moreover from has have "length g \<noteq> 0" by (auto simp: graph_has_def)
  ultimately show ?thesis using has by (simp add: findPaths_def Let_def)
qed

section \<open>Failing inputs of the path engine\<close>

text \<open>
  C1 (the distance that \<open>findPaths\<close> returns is at most the weight of every directed
  path from the source to the target) fails where a shortest path runs through a falsy
  node (the number 0, the empty string, NaN): the loop skips a dequeued node when
  \<open>!current\<close>, a test meant for \<open>undefined\<close>, so the node 0 is never expanded. The
  graph below is built by \<open>buildGraph\<close> from valid edges; \<open>findPaths\<close> returns the
  distance 5 although the path through 0 has weight 2. Without falsy nodes, and
  with sums taken exactly, the claim holds (\<open>findPaths_optimal\<close>).
\<close>

theorem findPaths_falsy_intermediate_not_optimal:
  "buildGraph
     [\<lparr>from = Val (Str ''A''), to = Val (Num (Finite 0)), weight = Val (Num (Finite 1))\<rparr>,
      \<lparr>from = Val (Num (Finite 0)), to = Val (Str ''B''), weight = Val (Num (Finite 1))\<rparr>,
      \<lparr>from = Val (Str ''A''), to = Val (Str ''B''), weight = Val (Num (Finite 5))\<rparr>]
   = Inr [(Str ''A'', [\<lparr>from = Str ''A'', to = Num (Finite 0), weight = Finite 1\<rparr>,
                      \<lparr>from = Str ''A'', to = Str ''B'', weight = Finite 5\<rparr>]),
          (Num (Finite 0), [\<lparr>from = Num (Finite 0), to = Str ''B'', weight = Finite 1\<rparr>]),
          (Str ''B'', [])] \<and>
   findPaths [(Str ''A'', [\<lparr>from = Str ''A'', to = Num (Finite 0), weight = Finite 1\<rparr>,
                      \<lparr>from = Str ''A'', to = Str ''B'', weight = Finite 5\<rparr>]),
          (Num (Finite 0), [\<lparr>from = Num (Finite 0), to = Str ''B'', weight = Finite 1\<rparr>]),
          (Str ''B'', [])] (Str ''A'') (Str ''B'')
   = Some (Inr \<lparr>path = [Str ''A'', Str ''B''], distance = Finite 5\<rparr>) \<and>
   connects [(Str ''A'', [\<lparr>from = Str ''A'', to = Num (Finite 0), weight = Finite 1\<rparr>,
                      \<lparr>from = Str ''A'', to = Str ''B'', weight = Finite 5\<rparr>]),
          (Num (Finite 0), [\<lparr>from = Num (Finite 0), to = Str ''B'', weight = Finite 1\<rparr>]),
          (Str ''B'', [])] [Str ''A'', Num (Finite 0), Str ''B'']
       [\<lparr>from = Str ''A'', to = Num (Finite 0), weight = Finite 1\<rparr>,
        \<lparr>from = Num (Finite 0), to = Str ''B'', weight = Finite 1\<rparr>] \<and>
   pathWeight [\<lparr>from = Str ''A'', to = Num (Finite 0), weight = Finite 1\<rparr>,
        \<lparr>from = Num (Finite 0), to = Str ''B'', weight = Finite 1\<rparr>] = Finite 2"
  by (simp add: eval_build eval_path pathWeight_def)

text \<open>
  C2 (\<open>NoPath\<close> is returned exactly for a known target that no directed path reaches,
  \<open>NodeNotFound\<close> exactly for an unknown target) fails for the same reason: from the
  start node 0 nothing is expanded, and \<open>findPaths\<close> returns \<open>NoPath\<close> for the node 1,
  which an edge leaving 0 reaches. The rest of the claim holds
  (\<open>findPaths_NodeNotFound_iff\<close>, \<open>findPaths_unreachable_NoPath\<close>), and without falsy
  nodes, with sums taken exactly, every reachable target is found
  (\<open>findPaths_complete\<close>).
\<close>

theorem findPaths_falsy_start_NoPath_reachable:
  "buildGraph
     [\<lparr>from = Val (Num (Finite 0)), to = Val (Num (Finite 1)), weight = Val (Num (Finite 5))\<rparr>]
   = Inr [(Num (Finite 0), [\<lparr>from = Num (Finite 0), to = Num (Finite 1), weight = Finite 5\<rparr>]),
          (Num (Finite 1), [])] \<and>
   findPaths [(Num (Finite 0), [\<lparr>from = Num (Finite 0), to = Num (Finite 1), weight = Finite 5\<rparr>]),
          (Num (Finite 1), [])] (Num (Finite 0)) (Num (Finite 1))
   = Some (Inl (NoPath (Num (Finite 0)) (Num (Finite 1)))) \<and>
   connects [(Num (Finite 0), [\<lparr>from = Num (Finite 0), to = Num (Finite 1), weight = Finite 5\<rparr>]),
          (Num (Finite 1), [])] [Num (Finite 0), Num (Finite 1)]
      [\<lparr>from = Num (Finite 0), to = Num (Finite 1), weight = Finite 5\<rparr>]"
  by (simp add: eval_build eval_path)

text \<open>
  C5 (\<open>findPaths(g, s, s)\<close> returns the path \<open>[s]\<close> with distance 0 for every node
  \<open>s\<close> of a built graph) fails for the node NaN: the key NaN is found by
  \<open>graph.has\<close>, but \<open>node === start\<close> is false for it, so the start never gets the
  distance 0 and \<open>findPaths(g, NaN, NaN)\<close> returns \<open>NoPath\<close>. For every other key the
  claim holds (\<open>findPaths_self\<close>), and so does its part on the empty graph
  (\<open>findPaths_empty\<close>).
\<close>

theorem findPaths_NaN_self_NoPath:
  "buildGraph
     [\<lparr>from = Val (Num NaN), to = Val (Str ''A''), weight = Val (Num (Finite 1))\<rparr>]
   = Inr [(Num NaN, [\<lparr>from = Num NaN, to = Str ''A'', weight = Finite 1\<rparr>]), (Str ''A'', [])] \<and>
   graph_has [(Num NaN, [\<lparr>from = Num NaN, to = Str ''A'', weight = Finite 1\<rparr>]), (Str ''A'', [])] (Num NaN) \<and>
   findPaths [(Num NaN, [\<lparr>from = Num NaN, to = Str ''A'', weight = Finite 1\<rparr>]), (Str ''A'', [])]
      (Num NaN) (Num NaN)
   = Some (Inl (NoPath (Num NaN) (Num NaN)))"
  by (simp add: eval_build eval_path)

end
